theory Spec2Isabelle
  imports Complex_Main
begin

section \<open>Data model\<close>

text \<open>
  The data model is the dictionary built by \<open>create_data_model\<close>. Keys read with
  \<open>data[...]\<close> are fields; keys read with \<open>data.get(key, default)\<close> are optional
  fields, \<open>None\<close> standing for an absent key. Travel times, demands, capacities and
  window bounds are Python integers.
\<close>

datatype py_error = IndexError | KeyError | ValueError

record data_model =
  time_matrix :: "int list list"
  time_windows :: "(int \<times> int) list"
  num_vehicles :: nat
  depot :: nat
  demands :: "int list"
  vehicle_capacities :: "int list"
  max_time_minutes :: "int option"
  service_time :: "int option"

text \<open>Indexing a list raises \<open>IndexError\<close> out of range; indices here are never negative.\<close>

definition list_get :: "'a list \<Rightarrow> nat \<Rightarrow> py_error + 'a" where
  "list_get xs i = (if i < length xs then Inr (xs ! i) else Inl IndexError)"

definition matrix_get :: "'a list list \<Rightarrow> nat \<Rightarrow> nat \<Rightarrow> py_error + 'a" where
  "matrix_get m i j = (case list_get m i of Inl e \<Rightarrow> Inl e | Inr row \<Rightarrow> list_get row j)"

text \<open>\<open>data.get('max_time_minutes', 480)\<close> and \<open>data.get('service_time', 10)\<close>.\<close>

definition get_max_time :: "data_model \<Rightarrow> int" where
  "get_max_time d = (case max_time_minutes d of None \<Rightarrow> 480 | Some m \<Rightarrow> m)"

definition get_service_time :: "data_model \<Rightarrow> int" where
  "get_service_time d = (case service_time d of None \<Rightarrow> 10 | Some s \<Rightarrow> s)"

section \<open>The greedy baseline: \<open>RouteOptimizer.solve_greedy\<close>\<close>

text \<open>
  The variables of the \<open>while True\<close> loop. \<open>unvisited\<close> is a Python set of small
  integers built from \<open>range(1, n)\<close>; the list holds it in the order the \<open>for\<close>
  loop iterates over it, which for such a set in CPython is ascending index order
  (every element sits in the hash-table slot of its own value), and removing an element
  keeps the order of the others.
\<close>

record gstate =
  unvisited :: "nat list"
  route :: "nat list"
  current_load :: int
  current_time :: int
  current_node :: nat

text \<open>
  One pass of the body of \<open>for candidate in unvisited\<close>. The pair \<open>(nearest, min_dist)\<close>
  is \<open>None\<close> while \<open>nearest is None\<close> and \<open>min_dist = float('inf')\<close>, which every
  integer travel time is below.
\<close>

definition scan_candidate ::
  "data_model \<Rightarrow> int \<Rightarrow> int \<Rightarrow> gstate \<Rightarrow> (nat \<times> int) option \<Rightarrow> nat
     \<Rightarrow> py_error + (nat \<times> int) option" where
  "scan_candidate d max_time vehicle_capacity st best candidate =
     (case matrix_get (time_matrix d) (current_node st) candidate of
        Inl e \<Rightarrow> Inl e
      | Inr dist_to \<Rightarrow>
     (case matrix_get (time_matrix d) candidate (depot d) of
        Inl e \<Rightarrow> Inl e
      | Inr dist_back \<Rightarrow>
     (case list_get (demands d) candidate of
        Inl e \<Rightarrow> Inl e
      | Inr demand \<Rightarrow>
          if current_load st + demand > vehicle_capacity then Inr best
          else if current_time st + dist_to + get_service_time d + dist_back > max_time
            then Inr best
          else if (case best of None \<Rightarrow> True | Some (nearest, min_dist) \<Rightarrow> dist_to < min_dist)
            then Inr (Some (candidate, dist_to))
          else Inr best)))"

fun scan ::
  "data_model \<Rightarrow> int \<Rightarrow> int \<Rightarrow> gstate \<Rightarrow> (nat \<times> int) option \<Rightarrow> nat list
     \<Rightarrow> py_error + (nat \<times> int) option" where
  "scan d max_time vehicle_capacity st best [] = Inr best"
| "scan d max_time vehicle_capacity st best (candidate # rest) =
     (case scan_candidate d max_time vehicle_capacity st best candidate of
        Inl e \<Rightarrow> Inl e
      | Inr best' \<Rightarrow> scan d max_time vehicle_capacity st best' rest)"

text \<open>The whole \<open>for\<close> loop, from \<open>nearest = None\<close>.\<close>

definition select_nearest ::
  "data_model \<Rightarrow> int \<Rightarrow> int \<Rightarrow> gstate \<Rightarrow> py_error + (nat \<times> int) option" where
  "select_nearest d max_time vehicle_capacity st =
     scan d max_time vehicle_capacity st None (unvisited st)"

text \<open>The statements after the scan: \<open>Move to nearest\<close>.\<close>

definition move_to :: "data_model \<Rightarrow> gstate \<Rightarrow> nat \<Rightarrow> int \<Rightarrow> py_error + gstate" where
  "move_to d st nearest min_dist =
     (case list_get (demands d) nearest of
        Inl e \<Rightarrow> Inl e
      | Inr demand \<Rightarrow>
          Inr \<lparr>unvisited = remove1 nearest (unvisited st),
               route = route st @ [nearest],
               current_load = current_load st + demand,
               current_time = current_time st + min_dist + 10,
               current_node = nearest\<rparr>)"

lemma scan_candidate_mem:
  assumes "scan_candidate d mt cap st best c = Inr (Some (x, m))"
  shows "x = c \<or> best = Some (x, m)"
  using assms unfolding scan_candidate_def
  by (auto split: sum.splits if_splits option.splits)

lemma scan_mem:
  assumes "scan d mt cap st best cs = Inr (Some (x, m))"
  shows "x \<in> set cs \<or> best = Some (x, m)"
  using assms
proof (induction cs arbitrary: best)
  case Nil
  then show ?case by simp
next
  case (Cons c cs)
  from Cons.prems obtain best' where
    b: "scan_candidate d mt cap st best c = Inr best'" and
    s: "scan d mt cap st best' cs = Inr (Some (x, m))"
    by (auto split: sum.splits)
  from Cons.IH [OF s] show ?case
  proof
    assume "x \<in> set cs"
    then show ?thesis by simp
  next
    assume "best' = Some (x, m)"
    with b scan_candidate_mem [of d mt cap st best c x m] show ?thesis by auto
  qed
qed

lemma select_nearest_mem:
  "select_nearest d mt cap st = Inr (Some (x, m)) \<Longrightarrow> x \<in> set (unvisited st)"
  unfolding select_nearest_def using scan_mem [of d mt cap st None "unvisited st" x m] by simp

lemma move_to_unvisited:
  "move_to d st x m = Inr st' \<Longrightarrow> unvisited st' = remove1 x (unvisited st)"
  unfolding move_to_def by (auto split: sum.splits)

text \<open>
  The \<open>while True\<close> loop: it ends at \<open>break\<close>, when the scan finds no candidate. Each
  other iteration removes the chosen stop from \<open>unvisited\<close>, so the loop terminates.
\<close>

function greedy_route :: "data_model \<Rightarrow> int \<Rightarrow> int \<Rightarrow> gstate \<Rightarrow> py_error + gstate" where
  "greedy_route d max_time vehicle_capacity st =
     (case select_nearest d max_time vehicle_capacity st of
        Inl e \<Rightarrow> Inl e
      | Inr None \<Rightarrow> Inr st
      | Inr (Some (nearest, min_dist)) \<Rightarrow>
          (case move_to d st nearest min_dist of
             Inl e \<Rightarrow> Inl e
           | Inr st' \<Rightarrow> greedy_route d max_time vehicle_capacity st'))"
  by pat_completeness auto
termination
proof (relation "measure (\<lambda>(d, mt, cap, st). length (unvisited st))")
  show "wf (measure (\<lambda>(d, mt, cap, st). length (unvisited st)))" by simp
next
  fix d :: data_model and max_time vehicle_capacity :: int and st st' :: gstate
    and x2 :: "(nat \<times> int) option" and x2a :: "nat \<times> int" and nearest :: nat and min_dist :: int
  assume sel: "select_nearest d max_time vehicle_capacity st = Inr x2"
    and x2: "x2 = Some x2a" and x2a: "(nearest, min_dist) = x2a"
    and mv: "move_to d st nearest min_dist = Inr st'"
  from sel x2 x2a have "nearest \<in> set (unvisited st)"
    using select_nearest_mem [of d max_time vehicle_capacity st nearest min_dist] by simp
  then have "length (remove1 nearest (unvisited st)) < length (unvisited st)"
    by (simp add: length_remove1) (cases "unvisited st"; simp)
  with move_to_unvisited [OF mv]
  show "((d, max_time, vehicle_capacity, st'), (d, max_time, vehicle_capacity, st))
          \<in> measure (\<lambda>(d, mt, cap, st). length (unvisited st))"
    by simp
qed

declare greedy_route.simps [simp del]

text \<open>
  The outer \<open>while unvisited\<close> loop. Nothing in its body is bound to shrink
  \<open>unvisited\<close>, so the loop is run on fuel: each iteration uses one unit, and
  \<open>None\<close> says the fuel ran out before the loop ended.
\<close>

definition fresh_state :: "data_model \<Rightarrow> nat list \<Rightarrow> gstate" where
  "fresh_state d unv =
     \<lparr>unvisited = unv, route = [], current_load = 0, current_time = 0,
      current_node = depot d\<rparr>"

fun greedy_loop ::
  "nat \<Rightarrow> data_model \<Rightarrow> int \<Rightarrow> nat list \<Rightarrow> nat list list \<Rightarrow> (py_error + nat list list) option" where
  "greedy_loop 0 d max_time unv routes = None"
| "greedy_loop (Suc fuel) d max_time unv routes =
     (if unv = [] then Some (Inr routes)
      else
        (case list_get (vehicle_capacities d) 0 of
           Inl e \<Rightarrow> Some (Inl e)
         | Inr vehicle_capacity \<Rightarrow>
             (case greedy_route d max_time vehicle_capacity (fresh_state d unv) of
                Inl e \<Rightarrow> Some (Inl e)
              | Inr st \<Rightarrow> greedy_loop fuel d max_time (unvisited st) (routes @ [route st]))))"

definition solve_greedy :: "nat \<Rightarrow> data_model \<Rightarrow> (py_error + nat list list) option" where
  "solve_greedy fuel d =
     greedy_loop fuel d (get_max_time d) [1 ..< length (time_matrix d)] []"

section \<open>Quantities the properties are stated in\<close>

text \<open>
  Travel time and demand as plain reads, and the eligibility test of the scan: the two
  \<open>continue\<close> guards, negated. Where the code returned without \<open>IndexError\<close>, its
  reads are these (\<open>list_get_Inr\<close>, \<open>matrix_get_Inr\<close>).
\<close>

definition tt :: "data_model \<Rightarrow> nat \<Rightarrow> nat \<Rightarrow> int" where
  "tt d i j = time_matrix d ! i ! j"

definition dem :: "data_model \<Rightarrow> nat \<Rightarrow> int" where
  "dem d c = demands d ! c"

definition eligible :: "data_model \<Rightarrow> int \<Rightarrow> int \<Rightarrow> gstate \<Rightarrow> nat \<Rightarrow> bool" where
  "eligible d max_time vehicle_capacity st c \<longleftrightarrow>
     current_load st + dem d c \<le> vehicle_capacity \<and>
     current_time st + tt d (current_node st) c + get_service_time d + tt d c (depot d)
       \<le> max_time"

lemma list_get_Inr: "list_get xs i = Inr v \<Longrightarrow> v = xs ! i"
  unfolding list_get_def by (simp split: if_splits)

lemma matrix_get_Inr: "matrix_get m i j = Inr v \<Longrightarrow> v = m ! i ! j"
  unfolding matrix_get_def by (auto split: sum.splits dest: list_get_Inr)

lemma scan_candidate_Inr:
  assumes "scan_candidate d mt cap st best c = Inr best'"
  shows "best' =
    (if eligible d mt cap st c \<and>
        (case best of None \<Rightarrow> True | Some (b, bm) \<Rightarrow> tt d (current_node st) c < bm)
     then Some (c, tt d (current_node st) c) else best)"
proof -
  from assms obtain dist_to dist_back demand where
    a: "matrix_get (time_matrix d) (current_node st) c = Inr dist_to" and
    b: "matrix_get (time_matrix d) c (depot d) = Inr dist_back" and
    c: "list_get (demands d) c = Inr demand"
    unfolding scan_candidate_def by (auto split: sum.splits)
  have a': "dist_to = tt d (current_node st) c"
    using matrix_get_Inr [OF a] by (simp add: tt_def)
  have b': "dist_back = tt d c (depot d)"
    using matrix_get_Inr [OF b] by (simp add: tt_def)
  have c': "demand = dem d c"
    using list_get_Inr [OF c] by (simp add: dem_def)
  from assms show ?thesis
    unfolding scan_candidate_def a b c a' b' c' eligible_def
    by (auto split: if_splits option.splits)
qed

lemma scan_le_best:
  assumes "scan d mt cap st (Some (b, bm)) cs = Inr r"
  shows "\<exists>x m. r = Some (x, m) \<and> m \<le> bm \<and> (m = bm \<longrightarrow> x = b)"
  using assms
proof (induction cs arbitrary: b bm)
  case Nil
  then show ?case by auto
next
  case (Cons c cs)
  from Cons.prems obtain best' where
    s1: "scan_candidate d mt cap st (Some (b, bm)) c = Inr best'" and
    s2: "scan d mt cap st best' cs = Inr r"
    by (auto split: sum.splits)
  from scan_candidate_Inr [OF s1]
  consider "best' = Some (b, bm)"
    | "best' = Some (c, tt d (current_node st) c)" "tt d (current_node st) c < bm"
    by (auto split: if_splits)
  then show ?case
  proof cases
    case 1
    with s2 Cons.IH [of b bm] show ?thesis by simp
  next
    case 2
    with s2 Cons.IH [of c "tt d (current_node st) c"] show ?thesis by fastforce
  qed
qed

lemma scan_None:
  assumes "scan d mt cap st best cs = Inr None"
  shows "best = None \<and> (\<forall>c\<in>set cs. \<not> eligible d mt cap st c)"
  using assms
proof (induction cs arbitrary: best)
  case Nil
  then show ?case by simp
next
  case (Cons c cs)
  from Cons.prems obtain best' where
    s1: "scan_candidate d mt cap st best c = Inr best'" and
    s2: "scan d mt cap st best' cs = Inr None"
    by (auto split: sum.splits)
  from Cons.IH [OF s2] have n: "best' = None" and r: "\<forall>c\<in>set cs. \<not> eligible d mt cap st c"
    by simp_all
  from scan_candidate_Inr [OF s1] n show ?case
    using r by (cases best) (auto split: if_splits)
qed

lemma scan_Some:
  assumes "scan d mt cap st best cs = Inr (Some (x, m))"
  shows "(best = Some (x, m) \<or>
          (x \<in> set cs \<and> eligible d mt cap st x \<and> m = tt d (current_node st) x)) \<and>
         (\<forall>c\<in>set cs. eligible d mt cap st c \<longrightarrow> m \<le> tt d (current_node st) c)"
  using assms
proof (induction cs arbitrary: best)
  case Nil
  then show ?case by simp
next
  case (Cons c cs)
  from Cons.prems obtain best' where
    s1: "scan_candidate d mt cap st best c = Inr best'" and
    s2: "scan d mt cap st best' cs = Inr (Some (x, m))"
    by (auto split: sum.splits)
  note ih = Cons.IH [OF s2]
  note sc = scan_candidate_Inr [OF s1]
  have src: "best = Some (x, m) \<or>
        (x \<in> set (c # cs) \<and> eligible d mt cap st x \<and> m = tt d (current_node st) x)"
    using ih sc by (auto split: if_splits)
  have hd_le: "m \<le> tt d (current_node st) c" if e: "eligible d mt cap st c"
  proof -
    from sc e obtain b bm where b: "best' = Some (b, bm)" and le: "bm \<le> tt d (current_node st) c"
      by (cases best) (auto split: if_splits)
    from scan_le_best [of d mt cap st b bm cs "Some (x, m)"] s2 b have "m \<le> bm" by simp
    with le show ?thesis by simp
  qed
  from ih hd_le src show ?case by auto
qed



section \<open>Termination of the greedy baseline\<close>

text \<open>
  An iteration of the outer loop that closes an empty route leaves \<open>unvisited\<close> as it
  was, and the next iteration starts from the same fresh state: the loop never ends.
\<close>

definition stranded_instance :: data_model where
  "stranded_instance =
     \<lparr>time_matrix = [[0, 300], [300, 0]],
      time_windows = [(0, 480), (0, 480)],
      num_vehicles = 1, depot = 0, demands = [0, 5],
      vehicle_capacities = [50],
      max_time_minutes = Some 480, service_time = Some 30\<rparr>"

lemma greedy_loop_stuck:
  assumes "greedy_route d mt cap (fresh_state d unv) = Inr st"
    and "unvisited st = unv"
    and "list_get (vehicle_capacities d) 0 = Inr cap"
    and "unv \<noteq> []"
  shows "greedy_loop n d mt unv routes = None"
  using assms by (induction n arbitrary: routes) simp_all

lemma stranded_select:
  "select_nearest stranded_instance 480 50 (fresh_state stranded_instance [1]) = Inr None"
  by (simp add: select_nearest_def scan_candidate_def matrix_get_def list_get_def
      stranded_instance_def fresh_state_def get_service_time_def)

lemma stranded_route:
  "greedy_route stranded_instance 480 50 (fresh_state stranded_instance [1])
     = Inr (fresh_state stranded_instance [1])"
  using stranded_select by (subst greedy_route.simps) simp

text \<open>
  Claim C1 says that \<open>solve_greedy\<close> terminates on every instance and drops a customer
  that is infeasible from a fresh vehicle. On \<open>stranded_instance\<close> the only customer
  is 300 minutes from the depot, so \<open>0 + 300 + 30 + 300 > 480\<close> and the customer is
  never eligible: whatever the number of iterations allowed, the outer loop has not
  returned.
\<close>

theorem solve_greedy_stranded: "solve_greedy n stranded_instance = None"
proof -
  have "greedy_loop n stranded_instance 480 [1] [] = None"
    by (rule greedy_loop_stuck [OF stranded_route])
       (simp_all add: fresh_state_def list_get_def stranded_instance_def)
  then show ?thesis
    by (simp add: solve_greedy_def get_max_time_def stranded_instance_def)
qed

section \<open>Routes, and the states the greedy loops pass through\<close>

text \<open>
  The travel time along a route from a start node; the elapsed time of a route with the
  configured service duration (travel plus \<open>service_time\<close> at every stop); the same
  with the leg back to the depot; and the demand carried.
\<close>

fun route_travel :: "data_model \<Rightarrow> nat \<Rightarrow> nat list \<Rightarrow> int" where
  "route_travel d cur [] = 0"
| "route_travel d cur (x # xs) = tt d cur x + route_travel d x xs"

definition route_elapsed :: "data_model \<Rightarrow> nat list \<Rightarrow> int" where
  "route_elapsed d r = route_travel d (depot d) r + get_service_time d * int (length r)"

definition route_duration :: "data_model \<Rightarrow> nat list \<Rightarrow> int" where
  "route_duration d r = route_elapsed d r + tt d (last (depot d # r)) (depot d)"

definition route_demand :: "data_model \<Rightarrow> nat list \<Rightarrow> int" where
  "route_demand d r = sum_list (map (dem d) r)"

text \<open>
  The states at the head of the \<open>while True\<close> loop in a run of \<open>solve_greedy\<close>: the
  first fresh route, the state after moving to the selected stop, and the fresh route
  opened after a \<open>break\<close> while customers remain. \<open>cap\<close> is
  \<open>vehicle_capacities[0]\<close>.
\<close>

inductive greedy_reach :: "data_model \<Rightarrow> int \<Rightarrow> gstate \<Rightarrow> bool" for d :: data_model and cap :: int
  where
    start:
      "list_get (vehicle_capacities d) 0 = Inr cap \<Longrightarrow>
       [1 ..< length (time_matrix d)] \<noteq> [] \<Longrightarrow>
       greedy_reach d cap (fresh_state d [1 ..< length (time_matrix d)])"
  | move:
      "greedy_reach d cap st \<Longrightarrow>
       select_nearest d (get_max_time d) cap st = Inr (Some (nearest, min_dist)) \<Longrightarrow>
       move_to d st nearest min_dist = Inr st' \<Longrightarrow>
       greedy_reach d cap st'"
  | reopen:
      "greedy_reach d cap st \<Longrightarrow>
       select_nearest d (get_max_time d) cap st = Inr None \<Longrightarrow>
       unvisited st \<noteq> [] \<Longrightarrow>
       greedy_reach d cap (fresh_state d (unvisited st))"

code_pred greedy_reach .

text \<open>What holds at every such state.\<close>

lemma route_travel_snoc:
  "route_travel d c (xs @ [x]) = route_travel d c xs + tt d (last (c # xs)) x"
  by (induction xs arbitrary: c) simp_all

definition greedy_inv :: "data_model \<Rightarrow> int \<Rightarrow> int \<Rightarrow> gstate \<Rightarrow> bool" where
  "greedy_inv d mt cap st \<longleftrightarrow>
     sorted_wrt (<) (unvisited st) \<and>
     current_node st = last (depot d # route st) \<and>
     current_time st = route_travel d (depot d) (route st) + 10 * int (length (route st)) \<and>
     current_load st = route_demand d (route st) \<and>
     (route st \<noteq> [] \<longrightarrow>
        current_load st \<le> cap \<and>
        current_time st - 10 + get_service_time d + tt d (current_node st) (depot d) \<le> mt)"

lemma greedy_inv_fresh: "sorted_wrt (<) unv \<Longrightarrow> greedy_inv d mt cap (fresh_state d unv)"
  by (simp add: greedy_inv_def fresh_state_def route_demand_def)

lemma select_nearest_Some:
  assumes "select_nearest d mt cap st = Inr (Some (x, m))"
  shows "x \<in> set (unvisited st)" and "eligible d mt cap st x"
    and "m = tt d (current_node st) x"
    and "\<forall>c\<in>set (unvisited st). eligible d mt cap st c \<longrightarrow> m \<le> tt d (current_node st) c"
  using scan_Some [of d mt cap st None "unvisited st" x m] assms
  unfolding select_nearest_def by auto

lemma sorted_wrt_remove1: "sorted_wrt (<) (xs :: nat list) \<Longrightarrow> sorted_wrt (<) (remove1 x xs)"
  by (induction xs) (auto dest: notin_set_remove1)

lemma greedy_inv_move:
  assumes inv: "greedy_inv d mt cap st"
    and sel: "select_nearest d mt cap st = Inr (Some (x, m))"
    and mv: "move_to d st x m = Inr st'"
  shows "greedy_inv d mt cap st'"
proof -
  from mv obtain demand where dm: "list_get (demands d) x = Inr demand" and
    st': "st' = \<lparr>unvisited = remove1 x (unvisited st), route = route st @ [x],
               current_load = current_load st + demand,
               current_time = current_time st + m + 10, current_node = x\<rparr>"
    unfolding move_to_def by (auto split: sum.splits)
  have demand: "demand = dem d x" using list_get_Inr [OF dm] by (simp add: dem_def)
  note s = select_nearest_Some [OF sel]
  from s(2) have el: "current_load st + dem d x \<le> cap"
    "current_time st + tt d (current_node st) x + get_service_time d + tt d x (depot d) \<le> mt"
    by (simp_all add: eligible_def)
  from inv have i: "sorted_wrt (<) (unvisited st)" "current_node st = last (depot d # route st)"
    "current_time st = route_travel d (depot d) (route st) + 10 * int (length (route st))"
    "current_load st = route_demand d (route st)"
    by (simp_all add: greedy_inv_def)
  have "sorted_wrt (<) (unvisited st')" using i(1) st' by (simp add: sorted_wrt_remove1)
  moreover have "current_node st' = last (depot d # route st')" using st' by simp
  moreover have "current_time st' =
      route_travel d (depot d) (route st') + 10 * int (length (route st'))"
    using st' i(2,3) s(3) by (simp add: route_travel_snoc)
  moreover have "current_load st' = route_demand d (route st')"
    using st' i(4) demand by (simp add: route_demand_def)
  moreover have "current_load st' \<le> cap" using st' el(1) demand by simp
  moreover have "current_time st' - 10 + get_service_time d + tt d (current_node st') (depot d) \<le> mt"
    using st' el(2) s(3) by simp
  ultimately show ?thesis unfolding greedy_inv_def by auto
qed

lemma greedy_inv_reopen:
  "greedy_inv d mt cap st \<Longrightarrow> greedy_inv d mt cap (fresh_state d (unvisited st))"
  by (simp add: greedy_inv_def fresh_state_def route_demand_def)

lemma greedy_reach_inv: "greedy_reach d cap st \<Longrightarrow> greedy_inv d (get_max_time d) cap st"
proof (induction rule: greedy_reach.induct)
  case start
  show ?case by (rule greedy_inv_fresh) simp
next
  case (move st nearest min_dist st')
  then show ?case using greedy_inv_move by blast
next
  case (reopen st)
  then show ?case using greedy_inv_reopen by blast
qed

lemma greedy_route_rule:
  assumes "greedy_route d mt cap st = Inr st'" and "P st"
    and "\<And>s x m s'. P s \<Longrightarrow> select_nearest d mt cap s = Inr (Some (x, m)) \<Longrightarrow>
           move_to d s x m = Inr s' \<Longrightarrow> P s'"
  shows "P st' \<and> select_nearest d mt cap st' = Inr None"
  using assms
proof (induction d mt cap st rule: greedy_route.induct)
  case (1 d mt cap st)
  show ?case
  proof (cases "select_nearest d mt cap st")
    case (Inl e)
    with "1.prems"(1) show ?thesis by (subst (asm) greedy_route.simps) simp
  next
    case (Inr r)
    show ?thesis
    proof (cases r)
      case None
      with Inr "1.prems"(1) have "st' = st" by (subst (asm) greedy_route.simps) simp
      with "1.prems"(2) Inr None show ?thesis by simp
    next
      case (Some p)
      obtain x m where p: "p = (x, m)" by (cases p)
      show ?thesis
      proof (cases "move_to d st x m")
        case (Inl e)
        with Inr Some p "1.prems"(1) show ?thesis by (subst (asm) greedy_route.simps) simp
      next
        case mv: (Inr s1)
        with Inr Some p "1.prems"(1) have run: "greedy_route d mt cap s1 = Inr st'"
          by (subst (asm) greedy_route.simps) simp
        have P1: "P s1" using "1.prems"(3) [OF "1.prems"(2) _ mv] Inr Some p by simp
        show ?thesis
          using "1.IH" [OF Inr Some p [symmetric] mv run P1 "1.prems"(3)] by simp
      qed
    qed
  qed
qed

lemma greedy_route_reach:
  assumes "greedy_reach d cap st" and "greedy_route d (get_max_time d) cap st = Inr st'"
  shows "greedy_reach d cap st'" and "select_nearest d (get_max_time d) cap st' = Inr None"
  using greedy_route_rule [OF assms(2), of "greedy_reach d cap"] assms(1)
    greedy_reach.move [of d cap] by blast+

lemma move_to_route: "move_to d s x m = Inr s' \<Longrightarrow> route s' = route s @ [x]"
  unfolding move_to_def by (auto split: sum.splits)

lemma greedy_route_unmoved:
  assumes "greedy_route d mt cap st = Inr st'" and "route st' = []"
  shows "st' = st"
proof -
  have "(route st' = [] \<longrightarrow> st' = st) \<and> select_nearest d mt cap st' = Inr None"
  proof (rule greedy_route_rule [OF assms(1), of "\<lambda>s. route s = [] \<longrightarrow> s = st"])
    show "route st = [] \<longrightarrow> st = st" by simp
  next
    fix s x m s'
    assume "move_to d s x m = Inr s'"
    from move_to_route [OF this] show "route s' = [] \<longrightarrow> s' = st" by simp
  qed
  with assms(2) show ?thesis by simp
qed

text \<open>
  Every route that \<open>solve_greedy\<close> returns is the non-empty route of a reachable
  state at which the scan found no candidate.
\<close>

lemma greedy_reach_capacity:
  "greedy_reach d cap st \<Longrightarrow> list_get (vehicle_capacities d) 0 = Inr cap"
  by (induction rule: greedy_reach.induct) simp_all

lemma greedy_loop_rule:
  assumes "greedy_loop fuel d (get_max_time d) unv routes = Some (Inr rs)"
    and "\<And>cap. unv \<noteq> [] \<Longrightarrow> list_get (vehicle_capacities d) 0 = Inr cap \<Longrightarrow>
           greedy_reach d cap (fresh_state d unv)"
    and "\<forall>r\<in>set routes. P r"
    and "\<And>cap st. greedy_reach d cap st \<Longrightarrow>
           select_nearest d (get_max_time d) cap st = Inr None \<Longrightarrow> route st \<noteq> [] \<Longrightarrow>
           P (route st)"
  shows "\<forall>r\<in>set rs. P r"
  using assms
proof (induction fuel arbitrary: unv routes)
  case 0
  then show ?case by simp
next
  case (Suc fuel)
  show ?case
  proof (cases "unv = []")
    case True
    with Suc.prems(1,3) show ?thesis by simp
  next
    case False
    with Suc.prems(1) obtain cap where cap: "list_get (vehicle_capacities d) 0 = Inr cap"
      by (cases "list_get (vehicle_capacities d) 0") simp_all
    with False Suc.prems(1) obtain st where
      run: "greedy_route d (get_max_time d) cap (fresh_state d unv) = Inr st" and
      rest: "greedy_loop fuel d (get_max_time d) (unvisited st) (routes @ [route st])
               = Some (Inr rs)"
      by (cases "greedy_route d (get_max_time d) cap (fresh_state d unv)") simp_all
    have reach0: "greedy_reach d cap (fresh_state d unv)" by (rule Suc.prems(2) [OF False cap])
    note fin = greedy_route_reach [OF reach0 run]
    have moved: "route st \<noteq> []"
    proof
      assume "route st = []"
      from greedy_route_unmoved [OF run this] have same: "unvisited st = unv"
        by (simp add: fresh_state_def)
      from greedy_loop_stuck [OF run same cap False, of fuel "routes @ [route st]"] rest same
      show False by simp
    qed
    have P: "\<forall>r\<in>set (routes @ [route st]). P r"
      using Suc.prems(3) Suc.prems(4) [OF fin moved] by simp
    have next_reach: "greedy_reach d cap' (fresh_state d (unvisited st))"
      if "unvisited st \<noteq> []" and "list_get (vehicle_capacities d) 0 = Inr cap'" for cap'
      using greedy_reach.reopen [OF fin that(1)] that(2) cap by simp
    show ?thesis
      by (rule Suc.IH [OF rest next_reach P Suc.prems(4)])
  qed
qed

lemma solve_greedy_rule:
  assumes "solve_greedy fuel d = Some (Inr rs)"
    and "\<And>cap st. greedy_reach d cap st \<Longrightarrow>
           select_nearest d (get_max_time d) cap st = Inr None \<Longrightarrow> route st \<noteq> [] \<Longrightarrow>
           P (route st)"
  shows "\<forall>r\<in>set rs. P r"
proof (rule greedy_loop_rule [of fuel d "[1 ..< length (time_matrix d)]" "[]" rs P])
  show "greedy_loop fuel d (get_max_time d) [1 ..< length (time_matrix d)] [] = Some (Inr rs)"
    using assms(1) by (simp add: solve_greedy_def)
next
  fix cap
  assume "[1 ..< length (time_matrix d)] \<noteq> []" "list_get (vehicle_capacities d) 0 = Inr cap"
  then show "greedy_reach d cap (fresh_state d [1 ..< length (time_matrix d)])"
    by (rule greedy_reach.start [rotated])
next
  show "\<forall>r\<in>set []. P r" by simp
next
  fix cap st
  assume "greedy_reach d cap st" "select_nearest d (get_max_time d) cap st = Inr None"
    "route st \<noteq> []"
  then show "P (route st)" by (rule assms(2))
qed

text \<open>
  The capacity invariant for the greedy strategy: the demand of every returned route is
  at most \<open>vehicle_capacities[0]\<close>. (Claim C3 states it for both strategies; the
  constraint-search strategy leaves the capacity to the routing solver it calls, whose
  search is no code of the repository.)
\<close>

lemma solve_greedy_capacity:
  assumes "solve_greedy fuel d = Some (Inr rs)" and "r \<in> set rs"
  shows "\<exists>cap. list_get (vehicle_capacities d) 0 = Inr cap \<and> route_demand d r \<le> cap"
proof -
  have "\<forall>r\<in>set rs. \<exists>cap. list_get (vehicle_capacities d) 0 = Inr cap \<and> route_demand d r \<le> cap"
  proof (rule solve_greedy_rule [OF assms(1)])
    fix cap st
    assume reach: "greedy_reach d cap st" and ne: "route st \<noteq> []"
    from greedy_reach_inv [OF reach] ne have "route_demand d (route st) \<le> cap"
      by (simp add: greedy_inv_def)
    with greedy_reach_capacity [OF reach]
    show "\<exists>cap. list_get (vehicle_capacities d) 0 = Inr cap \<and> route_demand d (route st) \<le> cap"
      by blast
  qed
  with assms(2) show ?thesis by blast
qed

text \<open>
  The duration bound for the greedy strategy holds when the service duration is at most
  the 10 minutes the clock adds per stop.
\<close>

lemma elapsed_le_clock:
  assumes "s \<le> 10" and "r \<noteq> []"
  shows "s * int (length r) \<le> 10 * int (length r) - 10 + (s :: int)"
proof -
  from assms(2) obtain n where n: "length r = Suc n" by (cases r) simp_all
  have "(s - 10) * int n \<le> 0" using assms(1) by (simp add: mult_nonpos_nonneg)
  then show ?thesis unfolding n by (simp add: algebra_simps)
qed

lemma solve_greedy_duration:
  assumes "solve_greedy fuel d = Some (Inr rs)" and "r \<in> set rs"
    and "get_service_time d \<le> 10"
  shows "route_duration d r \<le> get_max_time d"
proof -
  have "\<forall>r\<in>set rs. route_duration d r \<le> get_max_time d"
  proof (rule solve_greedy_rule [OF assms(1)])
    fix cap st
    assume reach: "greedy_reach d cap st" and ne: "route st \<noteq> []"
    from greedy_reach_inv [OF reach] ne have
      a: "current_node st = last (depot d # route st)" and
      b: "current_time st =
            route_travel d (depot d) (route st) + 10 * int (length (route st))" and
      c: "current_time st - 10 + get_service_time d + tt d (current_node st) (depot d)
            \<le> get_max_time d"
      by (auto simp: greedy_inv_def)
    from elapsed_le_clock [OF assms(3) ne] b c
    show "route_duration d (route st) \<le> get_max_time d"
      unfolding route_duration_def route_elapsed_def a by linarith
  qed
  with assms(2) show ?thesis by blast
qed

section \<open>Termination when every customer can be served from a fresh vehicle\<close>

text \<open>
  On a well-formed instance (a square matrix, a demand for every location, a depot in
  range, a capacity) no read fails, and when every customer passes the capacity and time
  tests from a fresh vehicle, each iteration of the outer loop serves at least one
  customer: the loop returns within as many iterations as there are locations.
\<close>

definition well_formed :: "data_model \<Rightarrow> bool" where
  "well_formed d \<longleftrightarrow>
     list_all (\<lambda>row. length row = length (time_matrix d)) (time_matrix d) \<and>
     length (demands d) = length (time_matrix d) \<and>
     depot d < length (time_matrix d) \<and>
     vehicle_capacities d \<noteq> []"

definition fresh_feasible :: "data_model \<Rightarrow> nat \<Rightarrow> bool" where
  "fresh_feasible d c \<longleftrightarrow>
     dem d c \<le> vehicle_capacities d ! 0 \<and>
     tt d (depot d) c + get_service_time d + tt d c (depot d) \<le> get_max_time d"

lemma wf_matrix_get:
  assumes "well_formed d" and "i < length (time_matrix d)" and "j < length (time_matrix d)"
  shows "matrix_get (time_matrix d) i j = Inr (tt d i j)"
proof -
  from assms(1,2) have "length (time_matrix d ! i) = length (time_matrix d)"
    by (simp add: well_formed_def list_all_length)
  with assms(2,3) show ?thesis by (simp add: matrix_get_def list_get_def tt_def)
qed

lemma wf_demand:
  "well_formed d \<Longrightarrow> c < length (time_matrix d) \<Longrightarrow> list_get (demands d) c = Inr (dem d c)"
  by (simp add: well_formed_def list_get_def dem_def)

lemma wf_scan:
  assumes "well_formed d" and "current_node st < length (time_matrix d)"
    and "\<forall>c\<in>set cs. c < length (time_matrix d)"
  shows "\<exists>r. scan d mt cap st best cs = Inr r"
  using assms(3)
proof (induction cs arbitrary: best)
  case Nil
  then show ?case by simp
next
  case (Cons c cs)
  from Cons.prems have c: "c < length (time_matrix d)" by simp
  from assms(1) have dp: "depot d < length (time_matrix d)" by (simp add: well_formed_def)
  have "\<exists>b. scan_candidate d mt cap st best c = Inr b"
    unfolding scan_candidate_def
    by (simp add: wf_matrix_get [OF assms(1,2) c] wf_matrix_get [OF assms(1) c dp]
        wf_demand [OF assms(1) c])
  then obtain b where "scan_candidate d mt cap st best c = Inr b" ..
  with Cons.IH [of b] Cons.prems show ?case by simp
qed

lemma wf_greedy_route:
  "well_formed d \<Longrightarrow> current_node st < length (time_matrix d) \<Longrightarrow>
   \<forall>c\<in>set (unvisited st). c < length (time_matrix d) \<Longrightarrow>
   \<exists>st'. greedy_route d mt cap st = Inr st'"
proof (induction d mt cap st rule: greedy_route.induct)
  case (1 d mt cap st)
  from wf_scan [OF "1.prems"(1,2,3), of mt cap None]
  obtain r where sel: "select_nearest d mt cap st = Inr r"
    by (auto simp: select_nearest_def)
  show ?case
  proof (cases r)
    case None
    with sel show ?thesis by (subst greedy_route.simps) simp
  next
    case (Some p)
    obtain x m where p: "p = (x, m)" by (cases p)
    from sel Some p have sel': "select_nearest d mt cap st = Inr (Some (x, m))" by simp
    from select_nearest_mem [OF sel'] "1.prems"(3) have x: "x < length (time_matrix d)" by simp
    from wf_demand [OF "1.prems"(1) x] obtain s1 where mv: "move_to d st x m = Inr s1"
      by (simp add: move_to_def)
    have n1: "current_node s1 < length (time_matrix d)"
      using mv x by (auto simp: move_to_def split: sum.splits)
    have u1: "\<forall>c\<in>set (unvisited s1). c < length (time_matrix d)"
      using move_to_unvisited [OF mv] "1.prems"(3) by (auto dest: notin_set_remove1)
    from "1.IH" [OF sel Some p [symmetric] mv "1.prems"(1) n1 u1]
    obtain st' where "greedy_route d mt cap s1 = Inr st'" ..
    with sel' mv show ?thesis by (subst greedy_route.simps) simp
  qed
qed

lemma greedy_route_shrinks:
  assumes "greedy_route d mt cap st = Inr st'"
  shows "set (unvisited st') \<subseteq> set (unvisited st) \<and>
         length (unvisited st') + length (route st') = length (unvisited st) + length (route st)"
proof -
  have "(set (unvisited st') \<subseteq> set (unvisited st) \<and>
         length (unvisited st') + length (route st') = length (unvisited st) + length (route st))
        \<and> select_nearest d mt cap st' = Inr None"
  proof (rule greedy_route_rule [OF assms])
    show "set (unvisited st) \<subseteq> set (unvisited st) \<and>
         length (unvisited st) + length (route st) = length (unvisited st) + length (route st)"
      by simp
  next
    fix s x m s'
    assume P: "set (unvisited s) \<subseteq> set (unvisited st) \<and>
         length (unvisited s) + length (route s) = length (unvisited st) + length (route st)"
      and sel: "select_nearest d mt cap s = Inr (Some (x, m))"
      and mv: "move_to d s x m = Inr s'"
    from select_nearest_mem [OF sel] have x: "x \<in> set (unvisited s)" .
    then have "length (unvisited s) = Suc (length (remove1 x (unvisited s)))"
      by (simp add: length_remove1) (cases "unvisited s"; simp)
    with P move_to_unvisited [OF mv] move_to_route [OF mv]
    show "set (unvisited s') \<subseteq> set (unvisited st) \<and>
         length (unvisited s') + length (route s') = length (unvisited st) + length (route st)"
      by (auto dest: notin_set_remove1)
  qed
  then show ?thesis by simp
qed

lemma fresh_eligible:
  "list_get (vehicle_capacities d) 0 = Inr cap \<Longrightarrow>
   eligible d (get_max_time d) cap (fresh_state d unv) c \<longleftrightarrow> fresh_feasible d c"
  using list_get_Inr [of "vehicle_capacities d" 0 cap]
  by (simp add: eligible_def fresh_feasible_def fresh_state_def)

lemma greedy_loop_terminates:
  assumes wf: "well_formed d"
  shows "\<forall>c\<in>set unv. c < length (time_matrix d) \<and> fresh_feasible d c \<Longrightarrow>
         length unv < fuel \<Longrightarrow>
         \<exists>rs. greedy_loop fuel d (get_max_time d) unv routes = Some (Inr rs)"
proof (induction fuel arbitrary: unv routes)
  case 0
  then show ?case by simp
next
  case (Suc fuel)
  show ?case
  proof (cases "unv = []")
    case True
    then show ?thesis by simp
  next
    case False
    from wf obtain cap where cap: "list_get (vehicle_capacities d) 0 = Inr cap"
      by (auto simp: well_formed_def list_get_def)
    from wf have dp: "current_node (fresh_state d unv) < length (time_matrix d)"
      by (simp add: well_formed_def fresh_state_def)
    from Suc.prems(1) have un: "\<forall>c\<in>set (unvisited (fresh_state d unv)). c < length (time_matrix d)"
      by (simp add: fresh_state_def)
    from wf_greedy_route [OF wf dp un] obtain st where
      run: "greedy_route d (get_max_time d) cap (fresh_state d unv) = Inr st" by blast
    note sh = greedy_route_shrinks [OF run]
    have moved: "route st \<noteq> []"
    proof
      assume "route st = []"
      from greedy_route_unmoved [OF run this] have st: "st = fresh_state d unv" .
      from greedy_route_rule [OF run, of "\<lambda>s. True"]
      have "select_nearest d (get_max_time d) cap st = Inr None" by simp
      from scan_None [OF this [unfolded select_nearest_def]]
      have "\<forall>c\<in>set unv. \<not> eligible d (get_max_time d) cap (fresh_state d unv) c"
        unfolding st by (simp add: fresh_state_def)
      with fresh_eligible [OF cap] Suc.prems(1) False show False
        by (cases unv) auto
    qed
    from sh moved have shorter: "length (unvisited st) < length unv"
      by (cases "route st") (simp_all add: fresh_state_def)
    with Suc.prems(2) have fuel: "length (unvisited st) < fuel" by simp
    from sh Suc.prems(1) have feas:
      "\<forall>c\<in>set (unvisited st). c < length (time_matrix d) \<and> fresh_feasible d c"
      by (auto simp: fresh_state_def)
    from Suc.IH [OF feas fuel, of "routes @ [route st]"] obtain rs where
      "greedy_loop fuel d (get_max_time d) (unvisited st) (routes @ [route st]) = Some (Inr rs)" ..
    with False cap run show ?thesis by simp
  qed
qed

lemma solve_greedy_terminates:
  assumes "well_formed d"
    and "\<forall>c\<in>{1 ..< length (time_matrix d)}. fresh_feasible d c"
  shows "\<exists>rs. solve_greedy (length (time_matrix d)) d = Some (Inr rs)"
proof -
  from assms(1) have "depot d < length (time_matrix d)" by (simp add: well_formed_def)
  then have "0 < length (time_matrix d)" by (cases "time_matrix d") simp_all
  then have "length [1 ..< length (time_matrix d)] < length (time_matrix d)" by simp
  moreover from assms(2) have
    "\<forall>c\<in>set [1 ..< length (time_matrix d)]. c < length (time_matrix d) \<and> fresh_feasible d c"
    by simp
  ultimately show ?thesis
    unfolding solve_greedy_def using greedy_loop_terminates [OF assms(1)] by blast
qed

section \<open>A run with two customers\<close>

text \<open>
  Two customers, each 10 minutes from the depot and from each other, a service duration
  of 60 minutes and a shift of 140 minutes.
\<close>

definition late_instance :: data_model where
  "late_instance =
     \<lparr>time_matrix = [[0, 10, 10], [10, 0, 10], [10, 10, 0]],
      time_windows = [(0, 140), (0, 140), (0, 140)],
      num_vehicles = 1, depot = 0, demands = [0, 1, 1],
      vehicle_capacities = [50],
      max_time_minutes = Some 140, service_time = Some 60\<rparr>"

lemmas greedy_eval =
  select_nearest_def scan_candidate_def matrix_get_def list_get_def move_to_def
  fresh_state_def get_service_time_def get_max_time_def

lemma late_select0:
  "select_nearest late_instance 140 50 (fresh_state late_instance [1, 2]) = Inr (Some (1, 10))"
  by (simp add: greedy_eval late_instance_def)

lemma late_route:
  "greedy_route late_instance 140 50 (fresh_state late_instance [1, 2]) =
     Inr \<lparr>unvisited = [], route = [1, 2], current_load = 2, current_time = 40,
          current_node = 2\<rparr>"
  by (simp add: greedy_route.simps greedy_eval late_instance_def)

lemma late_customers: "[1 ..< length (time_matrix late_instance)] = [1, 2]"
  by (simp add: late_instance_def upt_rec)

lemma late_reach0: "greedy_reach late_instance 50 (fresh_state late_instance [1, 2])"
proof -
  have "list_get (vehicle_capacities late_instance) 0 = Inr 50"
    by (simp add: list_get_def late_instance_def)
  from greedy_reach.start [OF this] show ?thesis unfolding late_customers by simp
qed

lemma late_select0':
  "select_nearest late_instance (get_max_time late_instance) 50
     (fresh_state late_instance [1, 2]) = Inr (Some (1, 10))"
  using late_select0 by (simp add: get_max_time_def late_instance_def)

lemma late_move0:
  "move_to late_instance (fresh_state late_instance [1, 2]) 1 10 =
     Inr \<lparr>unvisited = [2], route = [1], current_load = 1, current_time = 20,
          current_node = 1\<rparr>"
  by (simp add: greedy_eval late_instance_def)

lemma late_reach1:
  "greedy_reach late_instance 50
     \<lparr>unvisited = [2], route = [1], current_load = 1, current_time = 20, current_node = 1\<rparr>"
  by (rule greedy_reach.move [OF late_reach0 late_select0' late_move0])

lemma late_move1:
  "move_to late_instance
     \<lparr>unvisited = [2], route = [1], current_load = 1, current_time = 20, current_node = 1\<rparr>
     2 10 =
   Inr \<lparr>unvisited = [], route = [1, 2], current_load = 2, current_time = 40,
        current_node = 2\<rparr>"
  by (simp add: greedy_eval late_instance_def)

text \<open>
  Claim C2 says that for every returned route, the elapsed time with the configured
  service duration plus the leg back to the depot is within \<open>max_time_minutes\<close>. On
  \<open>late_instance\<close> the loop returns the single route \<open>[1, 2]\<close>, which takes
  \<open>10 + 60 + 10 + 60 + 10 = 150\<close> minutes against a shift of 140: the clock had
  advanced by \<open>10 + 10\<close> at the first stop, not by \<open>10 + 60\<close>, when the second
  stop was tested. (\<open>solve_greedy_duration\<close> above: the bound does hold when the
  service duration is at most 10.)
\<close>

theorem solve_greedy_late:
  "solve_greedy 2 late_instance = Some (Inr [[1, 2]]) \<and>
   route_duration late_instance [1, 2] = 150 \<and>
   get_max_time late_instance = 140"
proof -
  have "solve_greedy 2 late_instance = Some (Inr [[1, 2]])"
    using late_route
    by (simp add: solve_greedy_def numeral_2_eq_2 get_max_time_def list_get_def
        late_instance_def upt_rec)
  moreover have "route_duration late_instance [1, 2] = 150"
    by (simp add: route_duration_def route_elapsed_def tt_def get_service_time_def
        late_instance_def)
  moreover have "get_max_time late_instance = 140"
    by (simp add: get_max_time_def late_instance_def)
  ultimately show ?thesis by simp
qed

section \<open>The selection rule\<close>



section \<open>The route clock\<close>

text \<open>
  Claim C9: moving to the selected stop advances the clock by the travel time plus the
  constant 10, whatever \<open>service_time\<close> is configured (the move does not read it), so
  at every state of the loop the clock is the travel time along the route plus 10 per
  stop; with a service duration other than 10 and at least one stop visited it differs
  from the elapsed time the eligibility test assumes.
\<close>

theorem greedy_clock_ignores_service_time:
  "(move_to d st x m = Inr st' \<longrightarrow> current_time st' = current_time st + m + 10) \<and>
   move_to (d\<lparr>service_time := s\<rparr>) st x m = move_to d st x m \<and>
   (greedy_reach d cap st \<longrightarrow>
      current_time st = route_travel d (depot d) (route st) + 10 * int (length (route st))) \<and>
   (greedy_reach d cap st \<and> get_service_time d \<noteq> 10 \<and> route st \<noteq> [] \<longrightarrow>
      current_time st \<noteq> route_elapsed d (route st))"
proof -
  have a: "move_to d st x m = Inr st' \<longrightarrow> current_time st' = current_time st + m + 10"
    unfolding move_to_def by (auto split: sum.splits)
  have b: "move_to (d\<lparr>service_time := s\<rparr>) st x m = move_to d st x m"
    by (simp add: move_to_def)
  have c: "current_time st = route_travel d (depot d) (route st) + 10 * int (length (route st))"
    if "greedy_reach d cap st"
    using greedy_reach_inv [OF that] by (simp add: greedy_inv_def)
  have e: "current_time st \<noteq> route_elapsed d (route st)"
    if r: "greedy_reach d cap st" and s: "get_service_time d \<noteq> 10" and ne: "route st \<noteq> []"
  proof -
    from ne have "int (length (route st)) \<noteq> 0" by simp
    with s have "10 * int (length (route st)) \<noteq> get_service_time d * int (length (route st))"
      by simp
    with c [OF r] show ?thesis by (simp add: route_elapsed_def)
  qed
  from a b c e show ?thesis by blast
qed

theorem greedy_clock_ignores_service_time_witness:
  "move_to late_instance
     \<lparr>unvisited = [2], route = [1], current_load = 1, current_time = 20, current_node = 1\<rparr>
     2 10 =
   Inr \<lparr>unvisited = [], route = [1, 2], current_load = 2, current_time = 40,
        current_node = 2\<rparr> \<and>
   (40 :: int) = 20 + 10 + 10 \<and>
   get_service_time late_instance = 60 \<and>
   route_travel late_instance (depot late_instance) [1] = 10 \<and>
   (20 :: int) = route_travel late_instance (depot late_instance) [1] + 10 * int (length [1 :: nat]) \<and>
   route_elapsed late_instance [1] = 70 \<and>
   (20 :: int) \<noteq> route_elapsed late_instance [1]"
proof -
  let ?st = "\<lparr>unvisited = [2], route = [1], current_load = 1, current_time = 20,
               current_node = 1\<rparr>"
  let ?st' = "\<lparr>unvisited = [], route = [1, 2], current_load = 2, current_time = 40,
                current_node = 2\<rparr>"
  note clock = greedy_clock_ignores_service_time [of late_instance ?st 2 10 ?st' None 50]
  have service: "get_service_time late_instance = 60"
    by (simp add: get_service_time_def late_instance_def)
  have travel: "route_travel late_instance (depot late_instance) [1] = 10"
    by (simp add: tt_def late_instance_def)
  have elapsed: "route_elapsed late_instance [1] = 70"
    by (simp add: route_elapsed_def tt_def get_service_time_def late_instance_def)
  from clock late_move1 late_reach1 service
  have "current_time ?st' = current_time ?st + 10 + 10 \<and>
        current_time ?st = route_travel late_instance (depot late_instance) (route ?st)
            + 10 * int (length (route ?st)) \<and>
        current_time ?st \<noteq> route_elapsed late_instance (route ?st)"
    by simp
  with late_move1 service travel elapsed show ?thesis by simp
qed

section \<open>Floating-point sums\<close>

text \<open>
  A Python float is an IEEE binary64 number, and \<open>x + y\<close> and \<open>x - y\<close> on floats are
  the exact results rounded to the nearest number with a significand of 53 bits, a tie
  going to the even significand. \<open>float_round\<close> is that rounding of a real number:
  \<open>binade x\<close> is the exponent of the power of two at or below \<open>\<bar>x\<bar>\<close>, and \<open>ulp x\<close>
  the spacing of the floats there. The exponent is unbounded: a sum or difference of two
  floats that lands below the normal range is exact in binary64 and here alike, and an
  overflow to infinity, left unrounded here, is on the same side of every number it is
  compared with.
\<close>

definition round_half_even :: "real \<Rightarrow> int" where
  "round_half_even y =
     (let f = \<lfloor>y\<rfloor>; r = y - of_int f
      in if r < 1 / 2 then f else if r > 1 / 2 then f + 1
         else if even f then f else f + 1)"

definition binade :: "real \<Rightarrow> int" where
  "binade x = \<lfloor>log 2 \<bar>x\<bar>\<rfloor>"

definition ulp :: "real \<Rightarrow> real" where
  "ulp x = 2 powr of_int (binade x - 52)"

definition float_round :: "real \<Rightarrow> real" where
  "float_round x = (if x = 0 then 0 else of_int (round_half_even (x / ulp x)) * ulp x)"

definition float_add :: "real \<Rightarrow> real \<Rightarrow> real" where
  "float_add x y = float_round (x + y)"

definition float_sub :: "real \<Rightarrow> real \<Rightarrow> real" where
  "float_sub x y = float_round (x - y)"

text \<open>Rounding keeps the sign, and keeps what is at most 1 at most 1.\<close>

lemma round_half_even_bounds: "\<lfloor>y\<rfloor> \<le> round_half_even y \<and> round_half_even y \<le> \<lfloor>y\<rfloor> + 1"
  by (simp add: round_half_even_def Let_def)

lemma round_half_even_int: "round_half_even (of_int k) = k"
  by (simp add: round_half_even_def Let_def)

lemma binade_bounds:
  assumes "x \<noteq> 0"
  shows "2 powr of_int (binade x) \<le> \<bar>x\<bar>" and "\<bar>x\<bar> < 2 powr of_int (binade x + 1)"
  using floor_log_eq_powr_iff [of "\<bar>x\<bar>" 2 "binade x"] assms
  by (simp_all add: binade_def)

lemma binade_eq:
  assumes "2 powr of_int e \<le> \<bar>x\<bar>" and "\<bar>x\<bar> < 2 powr of_int (e + 1)"
  shows "binade x = e"
proof -
  have "0 < (2 :: real) powr of_int e" by simp
  with assms(1) have "0 < \<bar>x\<bar>" by linarith
  with floor_log_eq_powr_iff [of "\<bar>x\<bar>" 2 e] assms show ?thesis
    by (simp add: binade_def)
qed

lemma ulp_pos: "0 < ulp x"
  by (simp add: ulp_def)

lemma ulp_scale:
  "2 powr of_int (binade x) = 2 ^ 52 * ulp x"
  "2 powr of_int (binade x + 1) = 2 ^ 53 * ulp x"
proof -
  have p52: "(2 :: real) powr 52 = 2 ^ 52" and p53: "(2 :: real) powr 53 = 2 ^ 53"
    by simp_all
  have "(of_int (binade x) :: real) = 52 + of_int (binade x - 52)" by simp
  then have "(2 :: real) powr of_int (binade x) = 2 powr (52 + of_int (binade x - 52))"
    by (simp only:)
  also have "\<dots> = 2 powr 52 * 2 powr of_int (binade x - 52)" by (rule powr_add)
  finally show "2 powr of_int (binade x) = 2 ^ 52 * ulp x" by (simp only: ulp_def p52)
  have "(of_int (binade x + 1) :: real) = 53 + of_int (binade x - 52)" by simp
  then have "(2 :: real) powr of_int (binade x + 1) = 2 powr (53 + of_int (binade x - 52))"
    by (simp only:)
  also have "\<dots> = 2 powr 53 * 2 powr of_int (binade x - 52)" by (rule powr_add)
  finally show "2 powr of_int (binade x + 1) = 2 ^ 53 * ulp x" by (simp only: ulp_def p53)
qed

lemma scaled_lower:
  assumes "x \<noteq> 0"
  shows "2 ^ 52 \<le> \<bar>x\<bar> / ulp x"
proof -
  from binade_bounds(1) [OF assms] have "2 ^ 52 * ulp x \<le> \<bar>x\<bar>" by (simp only: ulp_scale)
  then show ?thesis using ulp_pos [of x] by (simp only: pos_le_divide_eq)
qed

lemma scaled_upper:
  assumes "x \<noteq> 0"
  shows "\<bar>x\<bar> / ulp x < 2 ^ 53"
proof -
  from binade_bounds(2) [OF assms] have "\<bar>x\<bar> < 2 ^ 53 * ulp x" by (simp only: ulp_scale)
  then show ?thesis using ulp_pos [of x] by (simp only: pos_divide_less_eq)
qed

lemma float_round_pos:
  assumes "0 < x"
  shows "0 < float_round x"
proof -
  from assms scaled_lower [of x] have "(2 :: real) ^ 52 \<le> x / ulp x" by simp
  moreover have "(1 :: real) \<le> 2 ^ 52" by simp
  ultimately have "1 \<le> x / ulp x" by linarith
  then have "1 \<le> \<lfloor>x / ulp x\<rfloor>" by linarith
  with round_half_even_bounds [of "x / ulp x"] have "0 < round_half_even (x / ulp x)"
    by linarith
  then have "0 < real_of_int (round_half_even (x / ulp x)) * ulp x"
    using ulp_pos [of x] by simp
  with assms show ?thesis by (simp add: float_round_def)
qed

lemma float_round_neg:
  assumes "x < 0"
  shows "float_round x < 0"
proof -
  from assms have "\<bar>x\<bar> / ulp x = - (x / ulp x)" by simp
  with assms scaled_lower [of x] have "(2 :: real) ^ 52 \<le> - (x / ulp x)" by simp
  moreover have "(2 :: real) \<le> 2 ^ 52" by simp
  ultimately have "x / ulp x \<le> - 2" by linarith
  then have "\<lfloor>x / ulp x\<rfloor> \<le> - 2" by linarith
  with round_half_even_bounds [of "x / ulp x"] have "round_half_even (x / ulp x) < 0"
    by linarith
  then have "real_of_int (round_half_even (x / ulp x)) * ulp x < 0"
    using ulp_pos [of x] by (simp add: mult_neg_pos)
  with assms show ?thesis by (simp add: float_round_def)
qed

lemma float_round_sign: "float_round x < 0 \<longleftrightarrow> x < 0"
proof (cases "x < 0")
  case True
  with float_round_neg show ?thesis by simp
next
  case False
  show ?thesis
  proof (cases "x = 0")
    case True
    then show ?thesis by (simp add: float_round_def)
  next
    case nz: False
    with False have "0 < x" by simp
    from float_round_pos [OF this] False show ?thesis by simp
  qed
qed

lemma float_round_le_one:
  assumes "x \<le> 1"
  shows "float_round x \<le> 1"
proof (cases "0 < x")
  case False
  then have "x < 0 \<or> x = 0" by linarith
  then show ?thesis
  proof
    assume "x < 0"
    from float_round_neg [OF this] show ?thesis by simp
  next
    assume "x = 0"
    then show ?thesis by (simp add: float_round_def)
  qed
next
  case True
  then have nz: "x \<noteq> 0" by simp
  have b0: "binade x \<le> 0"
  proof (rule ccontr)
    assume "\<not> binade x \<le> 0"
    then have "1 \<le> binade x" by simp
    then have "(1 :: real) \<le> of_int (binade x)" by simp
    then have "(2 :: real) powr 1 \<le> 2 powr of_int (binade x)"
      by (simp only: powr_le_cancel_iff one_less_numeral_iff semiring_norm)
    then have "(2 :: real) \<le> 2 powr of_int (binade x)" by simp
    with binade_bounds(1) [OF nz] True assms show False by simp
  qed
  show ?thesis
  proof (cases "binade x = 0")
    case e0: True
    with binade_bounds(1) [OF nz] True have "1 \<le> x" by simp
    with assms have x1: "x = 1" by simp
    have u: "ulp 1 = 1 / 2 ^ 52"
      using ulp_scale(1) [of 1] e0 x1 by (simp add: field_simps)
    have "1 / ulp 1 = real_of_int (2 ^ 52)" unfolding u by simp
    then have "round_half_even (1 / ulp 1) = 2 ^ 52" by (simp only: round_half_even_int)
    then show ?thesis unfolding x1 float_round_def u by simp
  next
    case False
    with b0 have "binade x + 1 \<le> 0" by simp
    then have "(of_int (binade x + 1) :: real) \<le> 0" by simp
    then have "(2 :: real) powr of_int (binade x + 1) \<le> 2 powr 0"
      by (simp only: powr_le_cancel_iff one_less_numeral_iff semiring_norm)
    then have "2 ^ 53 * ulp x \<le> 2 powr 0" by (simp only: ulp_scale)
    then have top: "2 ^ 53 * ulp x \<le> 1" by simp
    from scaled_upper [OF nz] True have "x / ulp x < 2 ^ 53" by simp
    then have "\<lfloor>x / ulp x\<rfloor> < 2 ^ 53" by (simp add: floor_less_iff)
    with round_half_even_bounds [of "x / ulp x"] have "round_half_even (x / ulp x) \<le> 2 ^ 53"
      by linarith
    then have "real_of_int (round_half_even (x / ulp x)) \<le> 2 ^ 53"
      by (metis of_int_le_iff of_int_numeral of_int_power)
    then have "real_of_int (round_half_even (x / ulp x)) * ulp x \<le> 2 ^ 53 * ulp x"
      using ulp_pos [of x] by (simp only: mult_le_cancel_right_pos)
    with top nz show ?thesis by (simp add: float_round_def)
  qed
qed

text \<open>
  The rounding at a number whose binade is known, and the sums used below: the floats
  written \<open>0.9\<close> and \<open>0.1\<close> add up to \<open>1.0\<close>, and those written \<open>0.3\<close> and
  \<open>0.4\<close> to the float written \<open>0.7\<close>, though the exact sums are larger.
\<close>

lemma float_round_at:
  assumes "2 powr of_int e \<le> \<bar>x\<bar>" and "\<bar>x\<bar> < 2 powr of_int (e + 1)"
  shows "float_round x =
           of_int (round_half_even (x / 2 powr of_int (e - 52))) * 2 powr of_int (e - 52)"
proof -
  have "0 < (2 :: real) powr of_int e" by simp
  with assms(1) have "x \<noteq> 0" by auto
  with binade_eq [OF assms] show ?thesis by (simp add: float_round_def ulp_def)
qed

lemma double_09: "float_round 0.9 = 8106479329266893 / 9007199254740992"
  by (subst float_round_at [of "-1"]) (simp_all add: round_half_even_def Let_def powr_minus_divide)

lemma double_01: "float_round 0.1 = 3602879701896397 / 36028797018963968"
  by (subst float_round_at [of "-4"]) (simp_all add: round_half_even_def Let_def powr_minus_divide)

lemma sum_09_01:
  "float_add (8106479329266893 / 9007199254740992) (3602879701896397 / 36028797018963968) = 1"
  unfolding float_add_def
  by (subst float_round_at [of 0]) (simp_all add: round_half_even_def Let_def powr_minus_divide)

lemma sum_03_04:
  "float_add (5404319552844595 / 18014398509481984) (3602879701896397 / 9007199254740992)
     = 3152519739159347 / 4503599627370496"
  unfolding float_add_def
  by (subst float_round_at [of "-1"]) (simp_all add: round_half_even_def Let_def powr_minus_divide)

lemma double_03: "float_round 0.3 = 5404319552844595 / 18014398509481984"
  by (subst float_round_at [of "-2"]) (simp_all add: round_half_even_def Let_def powr_minus_divide)

lemma double_04: "float_round 0.4 = 3602879701896397 / 9007199254740992"
  by (subst float_round_at [of "-2"]) (simp_all add: round_half_even_def Let_def powr_minus_divide)

lemma double_07: "float_round 0.7 = 3152519739159347 / 4503599627370496"
  by (subst float_round_at [of "-1"]) (simp_all add: round_half_even_def Let_def powr_minus_divide)

lemma sum_01_02: "float_add 0.1 0.2 = 5404319552844595 / 18014398509481984"
  unfolding float_add_def
  by (subst float_round_at [of "-2"]) (simp_all add: round_half_even_def Let_def powr_minus_divide)

lemma sum_quarter_half: "float_add 0.25 0.5 = 0.75"
  unfolding float_add_def
  by (subst float_round_at [of "-1"]) (simp_all add: round_half_even_def Let_def powr_minus_divide)

lemma sub_one_three_quarters: "float_sub 1 0.75 = 0.25"
  unfolding float_sub_def
  by (subst float_round_at [of "-2"]) (simp_all add: round_half_even_def Let_def powr_minus_divide)

lemma sum_three_quarters_half: "float_add 0.75 0.5 = 1.25"
  unfolding float_add_def
  by (subst float_round_at [of 0]) (simp_all add: round_half_even_def Let_def powr_minus_divide)

section \<open>The weather process: \<open>WeatherService\<close>\<close>

text \<open>
  Probabilities, multipliers, clock readings and costs are Python floats; here they are
  real numbers. The sum of the two probabilities and its difference from \<open>1.0\<close>, whose
  rounding decides a comparison, are rounded as the floats are (\<open>float_add\<close>,
  \<open>float_sub\<close>); the sums and products of the simulator are exact.
\<close>

record WeatherState =
  name :: string
  travel_time_factor :: real

definition STATES :: "string \<rightharpoonup> WeatherState" where
  "STATES =
     [''Ensolarado'' \<mapsto> \<lparr>name = ''Ensolarado'', travel_time_factor = 1.0\<rparr>,
      ''Chuva Leve'' \<mapsto> \<lparr>name = ''Chuva Leve'', travel_time_factor = 1.25\<rparr>,
      ''Tempestade Severa'' \<mapsto> \<lparr>name = ''Tempestade Severa'', travel_time_factor = 1.60\<rparr>]"

text \<open>\<open>STATES[key]\<close> raises \<open>KeyError\<close> on a key the dictionary lacks.\<close>

definition dict_get :: "('k \<rightharpoonup> 'v) \<Rightarrow> 'k \<Rightarrow> py_error + 'v" where
  "dict_get m k = (case m k of None \<Rightarrow> Inl KeyError | Some v \<Rightarrow> Inr v)"

record WeatherService =
  storm_prob :: real
  rain_prob :: real
  sunny_prob :: real

text \<open>\<open>WeatherService.__init__\<close>: the \<open>raise ValueError\<close> is the result \<open>Inl ValueError\<close>.\<close>

definition WeatherService_init :: "real \<Rightarrow> real \<Rightarrow> py_error + WeatherService" where
  "WeatherService_init storm rain =
     (let sunny = float_sub 1 (float_add storm rain)
      in if sunny < 0 then Inl ValueError
         else Inr \<lparr>storm_prob = storm, rain_prob = rain, sunny_prob = sunny\<rparr>)"

text \<open>
  \<open>get_current_weather\<close>, with the value \<open>r\<close> that \<open>random.random()\<close> returned as an
  argument.
\<close>

definition get_current_weather :: "WeatherService \<Rightarrow> real \<Rightarrow> py_error + WeatherState" where
  "get_current_weather ws r =
     (if r < storm_prob ws then dict_get STATES ''Tempestade Severa''
      else if r < float_add (storm_prob ws) (rain_prob ws) then dict_get STATES ''Chuva Leve''
      else dict_get STATES ''Ensolarado'')"

text \<open>
  Claim C7: constructing the weather service fails, with \<open>ValueError\<close> (the
  configuration error of the specification), exactly when
  \<open>storm_probability + rain_probability > 1.0\<close>, the sum being the float sum that the
  constructor computes; otherwise it succeeds and stores both probabilities as given. An
  exact sum of at most 1.0 has a float sum of at most 1.0, so it never fails. (An exact
  sum above 1.0 by less than the rounding, as for the floats \<open>0.9\<close> and \<open>0.1\<close>, has the
  float sum \<open>1.0\<close> and constructs.)
\<close>

theorem weather_service_construction:
  "(WeatherService_init storm rain = Inl ValueError \<longleftrightarrow> float_add storm rain > 1) \<and>
   ((\<exists>e. WeatherService_init storm rain = Inl e) \<longleftrightarrow> float_add storm rain > 1) \<and>
   (float_add storm rain \<le> 1 \<longrightarrow>
      WeatherService_init storm rain =
        Inr \<lparr>storm_prob = storm, rain_prob = rain,
             sunny_prob = float_sub 1 (float_add storm rain)\<rparr>) \<and>
   (storm + rain \<le> 1 \<longrightarrow> float_add storm rain \<le> 1)"
proof -
  have raise: "float_sub 1 (float_add storm rain) < 0 \<longleftrightarrow> 1 < float_add storm rain"
    unfolding float_sub_def float_round_sign by simp
  have exact: "float_add storm rain \<le> 1" if "storm + rain \<le> 1"
    unfolding float_add_def using that by (rule float_round_le_one)
  from raise exact show ?thesis
    by (auto simp: WeatherService_init_def Let_def)
qed

theorem weather_service_construction_witness:
  "WeatherService_init (8106479329266893 / 9007199254740992)
       (3602879701896397 / 36028797018963968) =
     Inr \<lparr>storm_prob = 8106479329266893 / 9007199254740992,
          rain_prob = 3602879701896397 / 36028797018963968, sunny_prob = 0\<rparr> \<and>
   WeatherService_init 0.25 0.5 = Inr \<lparr>storm_prob = 0.25, rain_prob = 0.5, sunny_prob = 0.25\<rparr> \<and>
   WeatherService_init 0.75 0.5 = Inl ValueError"
proof -
  have zero: "float_sub 1 1 = 0" by (simp add: float_sub_def float_round_def)
  have a: "WeatherService_init (8106479329266893 / 9007199254740992)
       (3602879701896397 / 36028797018963968) =
     Inr \<lparr>storm_prob = 8106479329266893 / 9007199254740992,
          rain_prob = 3602879701896397 / 36028797018963968, sunny_prob = 0\<rparr>"
  proof -
    have "float_add (8106479329266893 / 9007199254740992)
            (3602879701896397 / 36028797018963968) \<le> 1"
      unfolding sum_09_01 by simp
    with weather_service_construction
           [of "8106479329266893 / 9007199254740992" "3602879701896397 / 36028797018963968"]
    have "WeatherService_init (8106479329266893 / 9007199254740992)
            (3602879701896397 / 36028797018963968) =
          Inr \<lparr>storm_prob = 8106479329266893 / 9007199254740992,
               rain_prob = 3602879701896397 / 36028797018963968,
               sunny_prob = float_sub 1 (float_add (8106479329266893 / 9007199254740992)
                 (3602879701896397 / 36028797018963968))\<rparr>"
      by blast
    then show ?thesis unfolding sum_09_01 zero .
  qed
  have b: "WeatherService_init 0.25 0.5 =
     Inr \<lparr>storm_prob = 0.25, rain_prob = 0.5, sunny_prob = 0.25\<rparr>"
  proof -
    have "float_add 0.25 0.5 \<le> 1" unfolding sum_quarter_half by simp
    with weather_service_construction [of "0.25" "0.5"]
    have "WeatherService_init 0.25 0.5 =
          Inr \<lparr>storm_prob = 0.25, rain_prob = 0.5,
               sunny_prob = float_sub 1 (float_add 0.25 0.5)\<rparr>"
      by blast
    then show ?thesis unfolding sum_quarter_half sub_one_three_quarters .
  qed
  have c: "WeatherService_init 0.75 0.5 = Inl ValueError"
  proof -
    have "float_add 0.75 0.5 > 1" unfolding sum_three_quarters_half by simp
    with weather_service_construction [of "0.75" "0.5"] show ?thesis by blast
  qed
  from a b c show ?thesis by blast
qed

text \<open>
  Claim C6: for a value \<open>r\<close> of the random source the draw is the severe storm
  (multiplier 1.60) if \<open>r < storm_prob\<close>, else light rain (1.25) if
  \<open>r < storm_prob + rain_prob\<close>, the float sum that the method computes, else sunny
  (1.00), and it never fails.
\<close>

theorem weather_draw_thresholds:
  "get_current_weather ws r =
     Inr (if r < storm_prob ws
            then \<lparr>name = ''Tempestade Severa'', travel_time_factor = 1.60\<rparr>
          else if r < float_add (storm_prob ws) (rain_prob ws)
            then \<lparr>name = ''Chuva Leve'', travel_time_factor = 1.25\<rparr>
          else \<lparr>name = ''Ensolarado'', travel_time_factor = 1.00\<rparr>)"
  by (simp add: get_current_weather_def dict_get_def STATES_def)

text \<open>
  At the boundary: with the floats written \<open>0.3\<close> and \<open>0.4\<close> as probabilities, the draw
  at the float written \<open>0.7\<close>, which is their float sum, is sunny, and the draw at the
  float written \<open>0.3\<close> is light rain.
\<close>

theorem weather_draw_thresholds_witness:
  "get_current_weather
     \<lparr>storm_prob = 5404319552844595 / 18014398509481984,
      rain_prob = 3602879701896397 / 9007199254740992,
      sunny_prob = 0.3\<rparr>
     (3152519739159347 / 4503599627370496) =
     Inr \<lparr>name = ''Ensolarado'', travel_time_factor = 1\<rparr> \<and>
   get_current_weather
     \<lparr>storm_prob = 5404319552844595 / 18014398509481984,
      rain_prob = 3602879701896397 / 9007199254740992,
      sunny_prob = 0.3\<rparr>
     (5404319552844595 / 18014398509481984) =
     Inr \<lparr>name = ''Chuva Leve'', travel_time_factor = 1.25\<rparr>"
  using weather_draw_thresholds
      [of "\<lparr>storm_prob = 5404319552844595 / 18014398509481984,
            rain_prob = 3602879701896397 / 9007199254740992, sunny_prob = 0.3\<rparr>"
          "3152519739159347 / 4503599627370496"]
    weather_draw_thresholds
      [of "\<lparr>storm_prob = 5404319552844595 / 18014398509481984,
            rain_prob = 3602879701896397 / 9007199254740992, sunny_prob = 0.3\<rparr>"
          "5404319552844595 / 18014398509481984"]
  by (simp add: sum_03_04)

section \<open>The simulator: \<open>LogisticsSimulator\<close>\<close>

text \<open>\<open>round(x, 2)\<close>: the nearest multiple of 0.01, a tie going to the even one.\<close>

definition py_round2 :: "real \<Rightarrow> real" where
  "py_round2 x =
     (let y = x * 100; f = \<lfloor>y\<rfloor>; r = y - of_int f
      in of_int (if r < 1 / 2 then f else if r > 1 / 2 then f + 1
                 else if even f then f else f + 1) / 100)"


text \<open>
  One dictionary of \<open>self.logs\<close>, a field for each key of the source (written without
  the accent and with an underscore for a space).
\<close>

record event =
  Veiculo :: nat
  De :: nat
  Para :: nat
  Clima :: string
  Tempo_Base :: int
  Tempo_Real :: real
  Hora_Chegada :: real
  Atraso :: real
  Custo_Hora_Extra :: real

record simulator =
  logs :: "event list"
  total_overtime_cost :: real

definition OVERTIME_RATE_PER_MIN :: real where
  "OVERTIME_RATE_PER_MIN = 2.5"

definition LogisticsSimulator_init :: simulator where
  "LogisticsSimulator_init = \<lparr>logs = [], total_overtime_cost = 0.0\<rparr>"

text \<open>
  \<open>yield self.env.timeout(delay)\<close> suspends the process until the clock of the
  environment has advanced by \<open>delay\<close>, so \<open>self.env.now\<close> at resumption is the clock
  at the \<open>yield\<close> plus the delay; the kernel rejects a negative delay with
  \<open>ValueError\<close>.
\<close>

definition timeout :: "real \<Rightarrow> real \<Rightarrow> py_error + real" where
  "timeout now delay = (if delay < 0 then Inl ValueError else Inr (now + delay))"

text \<open>
  Steps 5 and 6 of \<open>drive\<close>, which run without a \<open>yield\<close> between them: the entry is
  appended and its overtime cost set. The source has the block twice, with the window's
  latest value as \<open>bound\<close> for a customer and \<open>max_time\<close> for the return to the depot.
\<close>

definition record_arrival ::
  "simulator \<Rightarrow> nat \<Rightarrow> nat \<Rightarrow> nat \<Rightarrow> WeatherState \<Rightarrow> int \<Rightarrow> real \<Rightarrow> real \<Rightarrow> int
     \<Rightarrow> simulator" where
  "record_arrival sim vehicle_id from_node next_node weather base_travel_time
       actual_travel_time arrival bound =
     (let entry =
        \<lparr>Veiculo = vehicle_id, De = from_node, Para = next_node, Clima = name weather,
         Tempo_Base = base_travel_time, Tempo_Real = py_round2 actual_travel_time,
         Hora_Chegada = py_round2 arrival,
         Atraso = py_round2 (actual_travel_time - of_int base_travel_time),
         Custo_Hora_Extra = 0.0\<rparr>
      in if arrival > of_int bound then
           (let overtime = arrival - of_int bound;
                cost = overtime * OVERTIME_RATE_PER_MIN
            in \<lparr>logs = logs sim @ [entry\<lparr>Custo_Hora_Extra := py_round2 cost\<rparr>],
                total_overtime_cost = total_overtime_cost sim + cost\<rparr>)
         else sim\<lparr>logs := logs sim @ [entry\<lparr>Custo_Hora_Extra := 0.0\<rparr>]\<rparr>)"

text \<open>
  \<open>drive\<close>: the \<open>for\<close> loop over the route (second equation) and the return to the
  depot after it (first equation). \<open>rnd leg\<close> is the value the random source gave for
  the leg numbered \<open>leg\<close> of this vehicle, \<open>now\<close> the clock when the leg starts.
\<close>

fun drive ::
  "data_model \<Rightarrow> WeatherService \<Rightarrow> (nat \<Rightarrow> real) \<Rightarrow> nat \<Rightarrow> nat \<Rightarrow> simulator \<Rightarrow> nat \<Rightarrow> real
     \<Rightarrow> nat list \<Rightarrow> py_error + simulator" where
  "drive d ws rnd leg vehicle_id sim from_node now [] =
     (case matrix_get (time_matrix d) from_node (depot d) of
        Inl e \<Rightarrow> Inl e
      | Inr base_travel_time \<Rightarrow>
     (case get_current_weather ws (rnd leg) of
        Inl e \<Rightarrow> Inl e
      | Inr weather \<Rightarrow>
     (case timeout now (of_int base_travel_time * travel_time_factor weather) of
        Inl e \<Rightarrow> Inl e
      | Inr arrival \<Rightarrow>
          Inr (record_arrival sim vehicle_id from_node (depot d) weather base_travel_time
                 (of_int base_travel_time * travel_time_factor weather) arrival
                 (get_max_time d)))))"
| "drive d ws rnd leg vehicle_id sim from_node now (next_node # rest) =
     (case matrix_get (time_matrix d) from_node next_node of
        Inl e \<Rightarrow> Inl e
      | Inr base_travel_time \<Rightarrow>
     (case get_current_weather ws (rnd leg) of
        Inl e \<Rightarrow> Inl e
      | Inr weather \<Rightarrow>
     (case timeout now (of_int base_travel_time * travel_time_factor weather) of
        Inl e \<Rightarrow> Inl e
      | Inr arrival \<Rightarrow>
     (case list_get (time_windows d) next_node of
        Inl e \<Rightarrow> Inl e
      | Inr (earliest, latest_allowed) \<Rightarrow>
     (case timeout arrival (of_int (get_service_time d)) of
        Inl e \<Rightarrow> Inl e
      | Inr departure \<Rightarrow>
          drive d ws rnd (Suc leg) vehicle_id
            (record_arrival sim vehicle_id from_node next_node weather base_travel_time
               (of_int base_travel_time * travel_time_factor weather) arrival
               latest_allowed)
            next_node departure rest)))))"

text \<open>
  \<open>run\<close> starts one process for every non-empty route, all at the same clock value,
  and the simulation kernel interleaves them in clock order. The processes share the log
  and the ledger only, and each reads the clock as its own start plus its own delays; here
  they run one after the other, which gives every leg its entry and its charge but lists
  the log vehicle by vehicle (and, should several processes fail, reports the failure of
  the first vehicle, not of the earliest clock). \<open>rnd i leg\<close> is the value the random
  source gave for leg \<open>leg\<close> of vehicle \<open>i\<close>, \<open>now\<close> the clock of the environment
  when \<open>run\<close> is called.
\<close>

fun run_from ::
  "data_model \<Rightarrow> WeatherService \<Rightarrow> (nat \<Rightarrow> nat \<Rightarrow> real) \<Rightarrow> real \<Rightarrow> nat \<Rightarrow> simulator
     \<Rightarrow> nat list list \<Rightarrow> py_error + simulator" where
  "run_from d ws rnd start i sim [] = Inr sim"
| "run_from d ws rnd start i sim (vehicle_route # rest) =
     (if vehicle_route \<noteq> [] then
        (case drive d ws (rnd i) 0 i sim (depot d) start vehicle_route of
           Inl e \<Rightarrow> Inl e
         | Inr sim' \<Rightarrow> run_from d ws rnd start (Suc i) sim' rest)
      else run_from d ws rnd start (Suc i) sim rest)"

definition run ::
  "data_model \<Rightarrow> WeatherService \<Rightarrow> (nat \<Rightarrow> nat \<Rightarrow> real) \<Rightarrow> real \<Rightarrow> nat list list
     \<Rightarrow> py_error + simulator" where
  "run d ws rnd now routes = run_from d ws rnd now 0 LogisticsSimulator_init routes"

section \<open>The overtime ledger and the log\<close>

text \<open>
  The arrival clock and the bound of every leg of a vehicle, in route order, the return to
  the depot last; the overtime cost of an arrival, and the cost its log entry shows.
\<close>

definition weather_factor :: "WeatherService \<Rightarrow> real \<Rightarrow> real" where
  "weather_factor ws r =
     (case get_current_weather ws r of Inl e \<Rightarrow> 1 | Inr w \<Rightarrow> travel_time_factor w)"

definition latest :: "data_model \<Rightarrow> nat \<Rightarrow> int" where
  "latest d n = snd (time_windows d ! n)"

fun arrivals ::
  "data_model \<Rightarrow> WeatherService \<Rightarrow> (nat \<Rightarrow> real) \<Rightarrow> nat \<Rightarrow> nat \<Rightarrow> real \<Rightarrow> nat list
     \<Rightarrow> (real \<times> int) list" where
  "arrivals d ws rnd leg from_node now [] =
     [(now + of_int (tt d from_node (depot d)) * weather_factor ws (rnd leg), get_max_time d)]"
| "arrivals d ws rnd leg from_node now (next_node # rest) =
     (now + of_int (tt d from_node next_node) * weather_factor ws (rnd leg), latest d next_node)
     # arrivals d ws rnd (Suc leg) next_node
         (now + of_int (tt d from_node next_node) * weather_factor ws (rnd leg)
            + of_int (get_service_time d)) rest"

fun run_arrivals ::
  "data_model \<Rightarrow> WeatherService \<Rightarrow> (nat \<Rightarrow> nat \<Rightarrow> real) \<Rightarrow> real \<Rightarrow> nat \<Rightarrow> nat list list
     \<Rightarrow> (real \<times> int) list" where
  "run_arrivals d ws rnd now i [] = []"
| "run_arrivals d ws rnd now i (vehicle_route # rest) =
     (if vehicle_route \<noteq> [] then arrivals d ws (rnd i) 0 (depot d) now vehicle_route else [])
     @ run_arrivals d ws rnd now (Suc i) rest"

definition overtime_cost :: "real \<times> int \<Rightarrow> real" where
  "overtime_cost a =
     (if fst a > of_int (snd a) then (fst a - of_int (snd a)) * OVERTIME_RATE_PER_MIN else 0)"

definition logged_cost :: "real \<times> int \<Rightarrow> real" where
  "logged_cost a =
     (if fst a > of_int (snd a) then py_round2 ((fst a - of_int (snd a)) * OVERTIME_RATE_PER_MIN)
      else 0)"

lemma record_arrival_total:
  "total_overtime_cost (record_arrival sim v a b w base actual t bound) =
     total_overtime_cost sim + overtime_cost (t, bound)"
  by (simp add: record_arrival_def overtime_cost_def Let_def)

lemma record_arrival_logs:
  "map Custo_Hora_Extra (logs (record_arrival sim v a b w base actual t bound)) =
     map Custo_Hora_Extra (logs sim) @ [logged_cost (t, bound)]"
  by (simp add: record_arrival_def logged_cost_def Let_def)

lemma overtime_cost_nonneg: "0 \<le> overtime_cost a"
  by (simp add: overtime_cost_def OVERTIME_RATE_PER_MIN_def)

lemma overtime_cost_pos: "0 < overtime_cost a \<longleftrightarrow> fst a > of_int (snd a)"
  by (simp add: overtime_cost_def OVERTIME_RATE_PER_MIN_def)

lemma timeout_Inr: "timeout now delay = Inr t \<Longrightarrow> t = now + delay"
  by (simp add: timeout_def split: if_splits)

lemma weather_Inr: "get_current_weather ws r = Inr w \<Longrightarrow> travel_time_factor w = weather_factor ws r"
  by (simp add: weather_factor_def)

lemma window_Inr: "list_get (time_windows d) n = Inr (e, l) \<Longrightarrow> l = latest d n"
  using list_get_Inr [of "time_windows d" n "(e, l)"] by (metis latest_def snd_conv)

lemma travel_Inr: "matrix_get (time_matrix d) i j = Inr v \<Longrightarrow> v = tt d i j"
  using matrix_get_Inr [of "time_matrix d" i j v] by (simp add: tt_def)

lemma drive_ledger:
  assumes "drive d ws rnd leg v sim from_node now r = Inr sim'"
  shows "total_overtime_cost sim' =
           total_overtime_cost sim
             + sum_list (map overtime_cost (arrivals d ws rnd leg from_node now r)) \<and>
         map Custo_Hora_Extra (logs sim') =
           map Custo_Hora_Extra (logs sim)
             @ map logged_cost (arrivals d ws rnd leg from_node now r)"
  using assms
proof (induction r arbitrary: leg sim from_node now)
  case Nil
  from Nil.prems obtain base w t where
    b: "matrix_get (time_matrix d) from_node (depot d) = Inr base" and
    w: "get_current_weather ws (rnd leg) = Inr w" and
    t: "timeout now (of_int base * travel_time_factor w) = Inr t" and
    s: "sim' = record_arrival sim v from_node (depot d) w base
                 (of_int base * travel_time_factor w) t (get_max_time d)"
    by (auto split: sum.splits)
  have t': "t = now + of_int (tt d from_node (depot d)) * weather_factor ws (rnd leg)"
    using timeout_Inr [OF t] travel_Inr [OF b] weather_Inr [OF w] by simp
  show ?case unfolding s t' by (simp add: record_arrival_total record_arrival_logs)
next
  case (Cons n rest)
  from Cons.prems obtain base w t e l dep where
    b: "matrix_get (time_matrix d) from_node n = Inr base" and
    w: "get_current_weather ws (rnd leg) = Inr w" and
    t: "timeout now (of_int base * travel_time_factor w) = Inr t" and
    tw: "list_get (time_windows d) n = Inr (e, l)" and
    dp: "timeout t (of_int (get_service_time d)) = Inr dep" and
    rec: "drive d ws rnd (Suc leg) v
            (record_arrival sim v from_node n w base (of_int base * travel_time_factor w) t l)
            n dep rest = Inr sim'"
    by (auto split: sum.splits prod.splits)
  have t': "t = now + of_int (tt d from_node n) * weather_factor ws (rnd leg)"
    using timeout_Inr [OF t] travel_Inr [OF b] weather_Inr [OF w] by simp
  have dep': "dep = t + of_int (get_service_time d)" by (rule timeout_Inr [OF dp])
  have l': "l = latest d n" by (rule window_Inr [OF tw])
  from Cons.IH [OF rec] show ?case
    unfolding dep' l' t' by (simp add: record_arrival_total record_arrival_logs)
qed

lemma run_from_ledger:
  assumes "run_from d ws rnd now i sim routes = Inr sim'"
  shows "total_overtime_cost sim' =
           total_overtime_cost sim
             + sum_list (map overtime_cost (run_arrivals d ws rnd now i routes)) \<and>
         map Custo_Hora_Extra (logs sim') =
           map Custo_Hora_Extra (logs sim) @ map logged_cost (run_arrivals d ws rnd now i routes)"
  using assms
proof (induction routes arbitrary: i sim)
  case Nil
  then show ?case by simp
next
  case (Cons r rest)
  show ?case
  proof (cases "r = []")
    case True
    with Cons.prems Cons.IH [of "Suc i" sim] show ?thesis by simp
  next
    case False
    with Cons.prems obtain s1 where
      d1: "drive d ws (rnd i) 0 i sim (depot d) now r = Inr s1" and
      r1: "run_from d ws rnd now (Suc i) s1 rest = Inr sim'"
      by (auto split: sum.splits)
    from drive_ledger [OF d1] Cons.IH [OF r1] False show ?thesis by simp
  qed
qed

lemma run_ledger:
  assumes "run d ws rnd now routes = Inr sim"
  shows "total_overtime_cost sim = sum_list (map overtime_cost (run_arrivals d ws rnd now 0 routes))"
    and "map Custo_Hora_Extra (logs sim) = map logged_cost (run_arrivals d ws rnd now 0 routes)"
  using run_from_ledger [OF assms [unfolded run_def]]
  by (simp_all add: LogisticsSimulator_init_def)

lemma logged_cost_round: "logged_cost a = py_round2 (overtime_cost a)"
  by (simp add: logged_cost_def overtime_cost_def py_round2_def)

lemma arrivals_bounds:
  "map snd (arrivals d ws rnd leg from_node now r) = map (latest d) r @ [get_max_time d]"
  by (induction r arbitrary: leg from_node now) simp_all

lemma sum_overtime_nonneg: "0 \<le> sum_list (map overtime_cost as)"
  by (induction as) (simp_all add: overtime_cost_nonneg)

lemma sum_overtime_zero:
  "\<forall>a\<in>set as. fst a \<le> of_int (snd a) \<Longrightarrow> sum_list (map overtime_cost as) = 0"
  by (induction as) (simp_all add: overtime_cost_def)

section \<open>Two runs of one route\<close>

text \<open>
  One customer, 101 minutes from the depot, with a window that closes at 120 and a service
  of 30 minutes; the route \<open>[1]\<close> driven once with every draw in the light-rain band
  and once with every draw sunny.
\<close>

definition rain_instance :: data_model where
  "rain_instance =
     \<lparr>time_matrix = [[0, 101], [101, 0]],
      time_windows = [(0, 480), (0, 120)],
      num_vehicles = 1, depot = 0, demands = [0, 5],
      vehicle_capacities = [50],
      max_time_minutes = Some 480, service_time = Some 30\<rparr>"

definition forecast :: WeatherService where
  "forecast = \<lparr>storm_prob = 0.1, rain_prob = 0.2, sunny_prob = 0.7\<rparr>"

definition rain_draws :: "nat \<Rightarrow> nat \<Rightarrow> real" where
  "rain_draws vehicle leg = 0.15"

definition sunny_draws :: "nat \<Rightarrow> nat \<Rightarrow> real" where
  "sunny_draws vehicle leg = 0.9"

definition rain_result :: simulator where
  "rain_result =
     \<lparr>logs =
        [\<lparr>Veiculo = 0, De = 0, Para = 1, Clima = ''Chuva Leve'', Tempo_Base = 101,
          Tempo_Real = 126.25, Hora_Chegada = 126.25, Atraso = 25.25,
          Custo_Hora_Extra = 15.62\<rparr>,
         \<lparr>Veiculo = 0, De = 1, Para = 0, Clima = ''Chuva Leve'', Tempo_Base = 101,
          Tempo_Real = 126.25, Hora_Chegada = 282.5, Atraso = 25.25,
          Custo_Hora_Extra = 0\<rparr>],
      total_overtime_cost = 15.625\<rparr>"

definition sunny_result :: simulator where
  "sunny_result =
     \<lparr>logs =
        [\<lparr>Veiculo = 0, De = 0, Para = 1, Clima = ''Ensolarado'', Tempo_Base = 101,
          Tempo_Real = 101, Hora_Chegada = 101, Atraso = 0, Custo_Hora_Extra = 0\<rparr>,
         \<lparr>Veiculo = 0, De = 1, Para = 0, Clima = ''Ensolarado'', Tempo_Base = 101,
          Tempo_Real = 101, Hora_Chegada = 232, Atraso = 0, Custo_Hora_Extra = 0\<rparr>],
      total_overtime_cost = 0\<rparr>"

lemma forecast_rain: "get_current_weather forecast 0.15 =
    Inr \<lparr>name = ''Chuva Leve'', travel_time_factor = 1.25\<rparr>"
  using sum_01_02 by (simp add: weather_draw_thresholds forecast_def)

lemma forecast_sunny: "get_current_weather forecast 0.9 =
    Inr \<lparr>name = ''Ensolarado'', travel_time_factor = 1\<rparr>"
  using sum_01_02 by (simp add: weather_draw_thresholds forecast_def)

lemmas sim_eval =
  run_def LogisticsSimulator_init_def record_arrival_def timeout_def matrix_get_def
  list_get_def get_service_time_def
  get_max_time_def OVERTIME_RATE_PER_MIN_def py_round2_def Let_def

lemma rain_run: "run rain_instance forecast rain_draws 0 [[1]] = Inr rain_result"
  using forecast_rain
  by (simp add: sim_eval rain_instance_def rain_draws_def rain_result_def)

lemma sunny_run: "run rain_instance forecast sunny_draws 0 [[1]] = Inr sunny_result"
  using forecast_sunny
  by (simp add: sim_eval rain_instance_def sunny_draws_def sunny_result_def)

lemmas arr_eval =
  weather_factor_def latest_def tt_def get_service_time_def get_max_time_def

lemma rain_arrivals:
  "run_arrivals rain_instance forecast rain_draws 0 0 [[1]] = [(126.25, 120), (282.5, 480)]"
  using forecast_rain by (simp add: arr_eval rain_instance_def rain_draws_def)

lemma sunny_arrivals:
  "run_arrivals rain_instance forecast sunny_draws 0 0 [[1]] = [(101, 120), (232, 480)]"
  using forecast_sunny by (simp add: arr_eval rain_instance_def sunny_draws_def)

text \<open>
  Claim C5 has the entry record the very cost that is added to the ledger. Under light
  rain the vehicle reaches the customer at 126.25, past the bound of 120: the ledger is
  charged 6.25 minutes at 2.5, which is 15.625, and the entry shows 15.62.
\<close>

theorem overtime_event_not_exact:
  "run rain_instance forecast rain_draws 0 [[1]] = Inr rain_result \<and>
   hd (run_arrivals rain_instance forecast rain_draws 0 0 [[1]]) = (126.25, 120) \<and>
   (126.25 :: real) > of_int 120 \<and>
   Custo_Hora_Extra (hd (logs rain_result)) = 15.62 \<and>
   (126.25 - of_int 120) * OVERTIME_RATE_PER_MIN = 15.625 \<and>
   Custo_Hora_Extra (hd (logs rain_result)) \<noteq> (126.25 - of_int 120) * OVERTIME_RATE_PER_MIN"
  using rain_run rain_arrivals
  by (simp add: rain_result_def OVERTIME_RATE_PER_MIN_def)

text \<open>
  Claim C5, amended: for every leg, the ledger grows by
  \<open>(arrival - bound) * OVERTIME_RATE_PER_MIN\<close> and the entry records that cost rounded to
  two decimals if the arrival clock exceeds the bound, and otherwise the ledger is
  unchanged and the entry records zero; the bound is the destination's latest window
  value for a customer and \<open>max_time_minutes\<close> for the return to the depot. So the
  ledger never decreases, rises exactly at a late arrival, is the sum of the charges of
  the legs, is non-negative after a run, and is zero after a run in which every arrival is
  within its bound.
\<close>

theorem overtime_charged_per_leg:
  "total_overtime_cost (record_arrival sim v a b w base actual t bound) =
     total_overtime_cost sim
       + (if t > of_int bound then (t - of_int bound) * OVERTIME_RATE_PER_MIN else 0) \<and>
   map Custo_Hora_Extra (logs (record_arrival sim v a b w base actual t bound)) =
     map Custo_Hora_Extra (logs sim)
       @ [if t > of_int bound then py_round2 ((t - of_int bound) * OVERTIME_RATE_PER_MIN)
          else 0] \<and>
   (total_overtime_cost sim < total_overtime_cost (record_arrival sim v a b w base actual t bound)
      \<longleftrightarrow> t > of_int bound) \<and>
   total_overtime_cost sim \<le> total_overtime_cost (record_arrival sim v a b w base actual t bound) \<and>
   map snd (arrivals d ws rnd1 leg from_node now r) = map (latest d) r @ [get_max_time d] \<and>
   (drive d ws rnd1 leg v sim from_node now r = Inr sim1 \<longrightarrow>
      total_overtime_cost sim \<le> total_overtime_cost sim1) \<and>
   (run d ws rnd now routes = Inr sim' \<longrightarrow>
      total_overtime_cost sim' =
        sum_list (map overtime_cost (run_arrivals d ws rnd now 0 routes)) \<and>
      0 \<le> total_overtime_cost sim' \<and>
      ((\<forall>a\<in>set (run_arrivals d ws rnd now 0 routes). fst a \<le> of_int (snd a)) \<longrightarrow>
         total_overtime_cost sim' = 0))"
proof -
  have pos: "0 < overtime_cost (t, bound) \<longleftrightarrow> t > of_int bound"
    using overtime_cost_pos [of "(t, bound)"] by simp
  have leg1: "total_overtime_cost (record_arrival sim v a b w base actual t bound) =
     total_overtime_cost sim
       + (if t > of_int bound then (t - of_int bound) * OVERTIME_RATE_PER_MIN else 0)"
    by (simp add: record_arrival_total overtime_cost_def)
  have leg2: "map Custo_Hora_Extra (logs (record_arrival sim v a b w base actual t bound)) =
     map Custo_Hora_Extra (logs sim)
       @ [if t > of_int bound then py_round2 ((t - of_int bound) * OVERTIME_RATE_PER_MIN)
          else 0]"
    by (simp add: record_arrival_logs logged_cost_def)
  have leg3: "total_overtime_cost sim
        < total_overtime_cost (record_arrival sim v a b w base actual t bound)
      \<longleftrightarrow> t > of_int bound"
    using pos by (simp add: record_arrival_total)
  have leg4: "total_overtime_cost sim
        \<le> total_overtime_cost (record_arrival sim v a b w base actual t bound)"
    using overtime_cost_nonneg [of "(t, bound)"] by (simp add: record_arrival_total)
  have drv: "total_overtime_cost sim \<le> total_overtime_cost sim1"
    if "drive d ws rnd1 leg v sim from_node now r = Inr sim1"
    using drive_ledger [OF that] sum_overtime_nonneg [of "arrivals d ws rnd1 leg from_node now r"]
    by simp
  have rn: "total_overtime_cost sim' =
        sum_list (map overtime_cost (run_arrivals d ws rnd now 0 routes)) \<and>
      0 \<le> total_overtime_cost sim' \<and>
      ((\<forall>a\<in>set (run_arrivals d ws rnd now 0 routes). fst a \<le> of_int (snd a)) \<longrightarrow>
         total_overtime_cost sim' = 0)"
    if "run d ws rnd now routes = Inr sim'"
    using run_ledger(1) [OF that] sum_overtime_nonneg [of "run_arrivals d ws rnd now 0 routes"]
      sum_overtime_zero [of "run_arrivals d ws rnd now 0 routes"]
    by simp
  from leg1 leg2 leg3 leg4 arrivals_bounds [of d ws rnd1 leg from_node now r] drv rn
  show ?thesis by blast
qed

theorem overtime_charged_per_leg_witness:
  "run rain_instance forecast sunny_draws 0 [[1]] = Inr sunny_result \<and>
   run_arrivals rain_instance forecast sunny_draws 0 0 [[1]] = [(101, 120), (232, 480)] \<and>
   0 \<le> total_overtime_cost sunny_result \<and>
   total_overtime_cost sunny_result = 0"
proof -
  note leg = overtime_charged_per_leg
    [where d = rain_instance and ws = forecast and rnd = sunny_draws and now = 0
       and routes = "[[1]]" and ?sim' = sunny_result]
  have on_time:
    "\<forall>a\<in>set (run_arrivals rain_instance forecast sunny_draws 0 0 [[1]]).
        fst a \<le> of_int (snd a)"
    unfolding sunny_arrivals by simp
  from leg sunny_run on_time
  have "0 \<le> total_overtime_cost sunny_result \<and> total_overtime_cost sunny_result = 0"
    by blast
  with sunny_run sunny_arrivals show ?thesis by blast
qed

text \<open>
  Claim C10: the ledger is the sum of the exact costs of the legs, the costs in the log
  sum to the sum of those costs rounded to two decimals, and there is a run after which
  the two differ.
\<close>

theorem ledger_not_sum_of_log:
  "(run d ws rnd now routes = Inr sim \<longrightarrow>
      total_overtime_cost sim =
        sum_list (map overtime_cost (run_arrivals d ws rnd now 0 routes)) \<and>
      sum_list (map Custo_Hora_Extra (logs sim)) =
        sum_list (map (\<lambda>a. py_round2 (overtime_cost a)) (run_arrivals d ws rnd now 0 routes))) \<and>
   (\<exists>d ws rnd now routes sim.
      run d ws rnd now routes = Inr sim \<and>
      total_overtime_cost sim \<noteq> sum_list (map Custo_Hora_Extra (logs sim)))"
proof -
  have gen: "total_overtime_cost sim =
        sum_list (map overtime_cost (run_arrivals d ws rnd now 0 routes)) \<and>
      sum_list (map Custo_Hora_Extra (logs sim)) =
        sum_list (map (\<lambda>a. py_round2 (overtime_cost a)) (run_arrivals d ws rnd now 0 routes))"
    if "run d ws rnd now routes = Inr sim"
    using run_ledger [OF that] by (simp add: logged_cost_round [abs_def])
  have "total_overtime_cost rain_result \<noteq> sum_list (map Custo_Hora_Extra (logs rain_result))"
    by (simp add: rain_result_def)
  with rain_run gen show ?thesis by blast
qed

theorem ledger_not_sum_of_log_witness:
  "run rain_instance forecast rain_draws 0 [[1]] = Inr rain_result \<and>
   sum_list (map overtime_cost (run_arrivals rain_instance forecast rain_draws 0 0 [[1]])) = 15.625 \<and>
   total_overtime_cost rain_result = 15.625 \<and>
   sum_list (map Custo_Hora_Extra (logs rain_result)) = 15.62"
  using ledger_not_sum_of_log [of rain_instance forecast rain_draws 0 "[[1]]" rain_result]
    rain_run
  by (simp add: rain_result_def)

end
